theory Spec2Isabelle
  imports Complex_Main "HOL-Library.Word" "HOL-Library.Log_Nat"
begin

section \<open>The order book of \<^verbatim>\<open>src/OrderBook/order_book.cpp\<close>\<close>

text \<open>
  The embedding follows the C++ class \<^verbatim>\<open>OrderBook\<close> member by member.

  \<^item> \<^verbatim>\<open>uint64_t\<close> is \<open>64 word\<close>: \<open>+\<close> and \<open>-\<close> wrap around as in C++.
  \<^item> \<^verbatim>\<open>double\<close> prices are \<open>real\<close>: the model covers the ordinary (non-NaN, finite)
    doubles, on which \<open><\<close>, \<open>\<le>\<close>, \<open>=\<close> and \<open>min\<close> are those of the reals. The two
    places that subtract prices (\<^verbatim>\<open>amend_order\<close>'s epsilon test and \<^verbatim>\<open>get_spread\<close>)
    use \<open>double_sub\<close>, the subtraction of IEEE 754 binary64: the exact difference
    rounded to the nearest double, ties to even.
  \<^item> An \<^verbatim>\<open>OrderNode\<close> lives on the heap and is reached through
    \<^verbatim>\<open>order_lookup_\<close> and through the \<^verbatim>\<open>head\<close>/\<^verbatim>\<open>next\<close> chain of its price level.
    The store of nodes is the map \<open>order_lookup\<close>; a node's address is the key
    it is registered under (its order id, \<^verbatim>\<open>order_lookup_[order.order_id] = new_node\<close>),
    and a level's doubly linked chain is the list \<open>fifo\<close> of these addresses,
    \<^verbatim>\<open>head\<close> first and \<^verbatim>\<open>tail\<close> last.
  \<^item> A \<^verbatim>\<open>std::map\<close> is the list of its entries in comparator order, so that
    \<^verbatim>\<open>begin()\<close> is the head of the list.
  \<^item> \<^verbatim>\<open>throw\<close> is the outcome \<open>Thrown\<close>, returned together with the book as the
    exception leaves it.
  \<^item> The line \<^verbatim>\<open>execute_trade\<close> prints to \<^verbatim>\<open>std::cout\<close> is appended to \<open>trade_log\<close>.
  \<^item> \<^verbatim>\<open>get_current_timestamp()\<close> is the parameter \<open>now\<close> of the operations that call it.
  \<^item> The loop of \<^verbatim>\<open>process_matching\<close> is a partial function: \<open>None\<close> means that the
    call has no defined result (the loop runs forever, or it dereferences a node
    that is not in the store).
\<close>

type_synonym u64 = "64 word"

record order =
  order_id :: u64
  is_buy :: bool
  price :: real
  quantity :: u64
  timestamp_ns :: u64

record price_level_data =
  total_quantity :: u64
  fifo :: "u64 list"

type_synonym side = "(real \<times> price_level_data) list"

record trade =
  trade_quantity :: u64
  trade_price :: real
  buy_id :: u64
  sell_id :: u64

record order_book =
  bids :: side
  asks :: side
  order_lookup :: "u64 \<rightharpoonup> order"
  total_trades :: u64
  total_volume :: u64
  trade_log :: "trade list"

datatype error = DuplicateId u64 | InvalidQuantity | InvalidPrice real

datatype 'a outcome = Returned 'a | Thrown error

subsection \<open>Arithmetic of \<^verbatim>\<open>double\<close>\<close>

text \<open>Rounding to the nearest integer, a tie to the even one.\<close>

definition round_even :: "real \<Rightarrow> int" where
  "round_even r =
     (let f = \<lfloor>r\<rfloor>; d = r - of_int f
      in if d < 1 / 2 then f else if 1 / 2 < d then f + 1 else if even f then f else f + 1)"

text \<open>The exponent \<open>k\<close> with \<open>2 ^ k \<le> x < 2 ^ (k + 1)\<close>, for \<open>x > 0\<close>.\<close>

definition binade :: "real \<Rightarrow> int" where
  "binade x = (if 1 \<le> x then bitlen \<lfloor>x\<rfloor> - 1 else - bitlen (\<lceil>1 / x\<rceil> - 1))"

text \<open>
  The distance between neighbouring doubles at \<open>x > 0\<close>: a double has 53 significant bits,
  and below \<open>2 ^ - 1022\<close> (the subnormal doubles) the distance is \<open>2 ^ - 1074\<close>.
\<close>

definition expo :: "real \<Rightarrow> int" where
  "expo x = max (binade x - 52) (- 1074)"

definition quantum :: "real \<Rightarrow> real" where
  "quantum x = 2 powi expo x"

text \<open>
  The double nearest to a real number, a tie to the one with the even significand. The
  exponent is not bounded above: the results of this program are differences of two
  doubles that are not negative, which do not overflow.
\<close>

definition round_to_double :: "real \<Rightarrow> real" where
  "round_to_double x =
     (if x = 0 then 0
      else sgn x * (of_int (round_even (\<bar>x\<bar> / quantum \<bar>x\<bar>)) * quantum \<bar>x\<bar>))"

text \<open>\<^verbatim>\<open>a - b\<close> on two doubles.\<close>

definition double_sub :: "real \<Rightarrow> real \<Rightarrow> real" where
  "double_sub a b = round_to_double (a - b)"

subsection \<open>The two ordered maps\<close>

text \<open>\<^verbatim>\<open>std::greater<double>\<close> for the bid side, \<^verbatim>\<open>std::less<double>\<close> for the ask side.\<close>

definition comparator :: "bool \<Rightarrow> real \<Rightarrow> real \<Rightarrow> bool" where
  "comparator bid_side x y = (if bid_side then x > y else x < y)"

text \<open>\<^verbatim>\<open>PriceLevelData()\<close>: no quantity, no node.\<close>

definition new_level :: price_level_data where
  "new_level = \<lparr>total_quantity = 0, fifo = []\<rparr>"

text \<open>\<^verbatim>\<open>side.find(price)\<close>.\<close>

definition side_find :: "real \<Rightarrow> side \<Rightarrow> price_level_data option" where
  "side_find p s = map_of s p"

text \<open>\<^verbatim>\<open>side[price]\<close>: the entry is created, in comparator order, when the key is absent.\<close>

fun side_index :: "bool \<Rightarrow> real \<Rightarrow> side \<Rightarrow> side" where
  "side_index bs p [] = [(p, new_level)]"
| "side_index bs p ((q, l) # rest) =
     (if comparator bs p q then (p, new_level) # (q, l) # rest
      else if comparator bs q p then (q, l) # side_index bs p rest
      else (q, l) # rest)"

text \<open>A write through the reference or iterator of the entry at \<open>p\<close>.\<close>

definition side_modify ::
  "real \<Rightarrow> (price_level_data \<Rightarrow> price_level_data) \<Rightarrow> side \<Rightarrow> side" where
  "side_modify p f s = map (\<lambda>e. if fst e = p then (fst e, f (snd e)) else e) s"

text \<open>\<^verbatim>\<open>side.erase(level_it)\<close>.\<close>

definition side_erase :: "real \<Rightarrow> side \<Rightarrow> side" where
  "side_erase p s = filter (\<lambda>e. fst e \<noteq> p) s"

definition side_of :: "bool \<Rightarrow> order_book \<Rightarrow> side" where
  "side_of bid_side b = (if bid_side then bids b else asks b)"

definition set_side :: "bool \<Rightarrow> side \<Rightarrow> order_book \<Rightarrow> order_book" where
  "set_side bid_side s b = (if bid_side then b\<lparr>bids := s\<rparr> else b\<lparr>asks := s\<rparr>)"

subsection \<open>Private members\<close>

text \<open>
  \<^verbatim>\<open>add_order_to_side\<close> (both overloads; \<open>bid_side\<close> says which map was passed):
  the node is registered, then linked at the tail of its level.
\<close>

definition add_order_to_side :: "order \<Rightarrow> bool \<Rightarrow> order_book \<Rightarrow> order_book" where
  "add_order_to_side ord bid_side b =
     (let b1 = b\<lparr>order_lookup := (order_lookup b)(order_id ord \<mapsto> ord)\<rparr>;
          s1 = side_index bid_side (price ord) (side_of bid_side b1);
          s2 = side_modify (price ord)
                 (\<lambda>l. l\<lparr>total_quantity := total_quantity l + quantity ord,
                        fifo := fifo l @ [order_id ord]\<rparr>) s1
      in set_side bid_side s2 b1)"

text \<open>
  \<^verbatim>\<open>remove_order_from_side\<close> (both overloads). Unlinking the node from its chain is
  \<open>remove1\<close> on the chain of the level found under the node's price.
\<close>

definition remove_order_from_side :: "u64 \<Rightarrow> bool \<Rightarrow> order_book \<Rightarrow> bool \<times> order_book" where
  "remove_order_from_side oid bid_side b =
     (case order_lookup b oid of
        None \<Rightarrow> (False, b)
      | Some node \<Rightarrow>
          (case side_find (price node) (side_of bid_side b) of
             None \<Rightarrow> (False, b)
           | Some level_data \<Rightarrow>
               (let tq = (if total_quantity level_data \<ge> quantity node
                          then total_quantity level_data - quantity node else 0);
                    chain = remove1 oid (fifo level_data);
                    s1 = (if chain = [] then side_erase (price node) (side_of bid_side b)
                          else side_modify (price node)
                                 (\<lambda>l. l\<lparr>total_quantity := tq, fifo := chain\<rparr>)
                                 (side_of bid_side b));
                    b1 = set_side bid_side s1 b
                in (True, b1\<lparr>order_lookup := (order_lookup b1)(oid := None)\<rparr>))))"

text \<open>
  \<^verbatim>\<open>execute_trade\<close>. \<open>buy_order\<close> and \<open>sell_order\<close> are the contents of the two nodes
  when the function is entered; the nodes themselves are the store entries under
  their ids.
\<close>

definition execute_trade :: "order \<Rightarrow> order \<Rightarrow> u64 \<Rightarrow> order_book \<Rightarrow> order_book" where
  "execute_trade buy_order sell_order tq b =
     (let tp = min (price buy_order) (price sell_order);
          b1 = b\<lparr>trade_log := trade_log b @
                    [\<lparr>trade_quantity = tq, trade_price = tp,
                      buy_id = order_id buy_order, sell_id = order_id sell_order\<rparr>],
                 total_trades := total_trades b + 1,
                 total_volume := total_volume b + tq\<rparr>;
          buy1 = buy_order\<lparr>quantity := quantity buy_order - tq\<rparr>;
          sell1 = sell_order\<lparr>quantity := quantity sell_order - tq\<rparr>;
          b2 = b1\<lparr>order_lookup :=
                    (order_lookup b1)(order_id buy_order \<mapsto> buy1, order_id sell_order \<mapsto> sell1)\<rparr>;
          b3 = b2\<lparr>bids := side_modify (price buy1)
                    (\<lambda>l. l\<lparr>total_quantity := total_quantity l - tq\<rparr>) (bids b2)\<rparr>;
          b4 = b3\<lparr>asks := side_modify (price sell1)
                    (\<lambda>l. l\<lparr>total_quantity := total_quantity l - tq\<rparr>) (asks b3)\<rparr>;
          b5 = (if quantity buy1 = 0
                then snd (remove_order_from_side (order_id buy1) True b4) else b4);
          b6 = (if quantity sell1 = 0
                then snd (remove_order_from_side (order_id sell1) False b5) else b5)
      in b6)"

text \<open>\<^verbatim>\<open>process_matching\<close>: the \<^verbatim>\<open>while\<close> loop, one iteration per unfolding.\<close>

partial_function (option) process_matching :: "order_book \<Rightarrow> order_book option" where
  "process_matching b =
     (case bids b of
        [] \<Rightarrow> Some b
      | (best_bid, bid_level) # _ \<Rightarrow>
          (case asks b of
             [] \<Rightarrow> Some b
           | (best_ask, ask_level) # _ \<Rightarrow>
               if best_bid < best_ask then Some b
               else (case fifo bid_level of
                       [] \<Rightarrow> Some b
                     | hb # _ \<Rightarrow>
                         (case fifo ask_level of
                            [] \<Rightarrow> Some b
                          | hs # _ \<Rightarrow>
                              (case order_lookup b hb of
                                 None \<Rightarrow> None
                               | Some best_buy_order \<Rightarrow>
                                   (case order_lookup b hs of
                                      None \<Rightarrow> None
                                    | Some best_sell_order \<Rightarrow>
                                        process_matching
                                          (execute_trade best_buy_order best_sell_order
                                             (min (quantity best_buy_order)
                                                  (quantity best_sell_order)) b)))))))"

declare process_matching.simps [code]

subsection \<open>Public members\<close>

text \<open>\<^verbatim>\<open>OrderBook()\<close>.\<close>

definition empty_book :: order_book where
  "empty_book = \<lparr>bids = [], asks = [], order_lookup = Map.empty,
                 total_trades = 0, total_volume = 0, trade_log = []\<rparr>"

text \<open>\<^verbatim>\<open>add_order\<close>.\<close>

definition add_order ::
  "order \<Rightarrow> bool \<Rightarrow> u64 \<Rightarrow> order_book \<Rightarrow> (unit outcome \<times> order_book) option" where
  "add_order ord match_immediately now b =
     (if order_lookup b (order_id ord) \<noteq> None then Some (Thrown (DuplicateId (order_id ord)), b)
      else if quantity ord = 0 then Some (Thrown InvalidQuantity, b)
      else if price ord \<le> 0 then Some (Thrown (InvalidPrice (price ord)), b)
      else
        (let order_with_ts = (if timestamp_ns ord = 0 then ord\<lparr>timestamp_ns := now\<rparr> else ord);
             b1 = add_order_to_side order_with_ts (is_buy order_with_ts) b
         in if match_immediately
            then map_option (Pair (Returned ())) (process_matching b1)
            else Some (Returned (), b1)))"

text \<open>\<^verbatim>\<open>cancel_order\<close>.\<close>

definition cancel_order :: "u64 \<Rightarrow> order_book \<Rightarrow> bool \<times> order_book" where
  "cancel_order oid b =
     (case order_lookup b oid of
        None \<Rightarrow> (False, b)
      | Some node \<Rightarrow> remove_order_from_side oid (is_buy node) b)"

text \<open>
  \<^verbatim>\<open>amend_order\<close>. \<^verbatim>\<open>quantity_diff\<close> is an \<^verbatim>\<open>int64_t\<close> that is added to the unsigned
  aggregate, that is, modulo \<open>2 ^ 64\<close>: the aggregate becomes
  \<open>total_quantity + (new_quantity - quantity)\<close> in 64-bit arithmetic. (Where the difference
  of the two casts does not fit \<^verbatim>\<open>int64_t\<close> the C++ subtraction has no defined result; the
  model takes the two's complement one.) An exception of the inner \<^verbatim>\<open>add_order\<close> leaves
  \<^verbatim>\<open>amend_order\<close> with the book as it is then. The literal \<^verbatim>\<open>1e-12\<close> is the double
  nearest to \<open>1 / 10 ^ 12\<close>, and the difference compared with it is a double.
\<close>

definition amend_order ::
  "u64 \<Rightarrow> real \<Rightarrow> u64 \<Rightarrow> bool \<Rightarrow> u64 \<Rightarrow> order_book \<Rightarrow> (bool outcome \<times> order_book) option" where
  "amend_order oid new_price new_quantity match_immediately now b =
     (case order_lookup b oid of
        None \<Rightarrow> Some (Returned False, b)
      | Some existing_order \<Rightarrow>
          if new_quantity = 0 then Some (Thrown InvalidQuantity, b)
          else if new_price \<le> 0 then Some (Thrown (InvalidPrice new_price), b)
          else if \<bar>double_sub (price existing_order) new_price\<bar> > round_to_double (1 / 10 ^ 12) then
            (let new_order = existing_order\<lparr>price := new_price, quantity := new_quantity\<rparr>
             in case cancel_order oid b of
                  (False, b1) \<Rightarrow> Some (Returned False, b1)
                | (True, b1) \<Rightarrow>
                    (case add_order new_order match_immediately now b1 of
                       None \<Rightarrow> None
                     | Some (Thrown e, b2) \<Rightarrow> Some (Thrown e, b2)
                     | Some (Returned u, b2) \<Rightarrow>
                         if match_immediately
                         then map_option (Pair (Returned True)) (process_matching b2)
                         else Some (Returned True, b2)))
          else
            (let quantity_diff = new_quantity - quantity existing_order;
                 s1 = side_modify (price existing_order)
                        (\<lambda>l. l\<lparr>total_quantity := total_quantity l + quantity_diff\<rparr>)
                        (side_of (is_buy existing_order) b);
                 b1 = set_side (is_buy existing_order) s1 b;
                 b2 = b1\<lparr>order_lookup :=
                           (order_lookup b1)(oid \<mapsto> existing_order\<lparr>quantity := new_quantity\<rparr>)\<rparr>
             in if match_immediately
                then map_option (Pair (Returned True)) (process_matching b2)
                else Some (Returned True, b2)))"

text \<open>\<^verbatim>\<open>match_orders\<close>.\<close>

definition match_orders :: "order_book \<Rightarrow> order_book option" where
  "match_orders b = process_matching b"

text \<open>\<^verbatim>\<open>get_snapshot\<close>: a \<^verbatim>\<open>PriceLevel(price, total_quantity)\<close> is a pair.\<close>

definition get_snapshot :: "nat \<Rightarrow> order_book \<Rightarrow> (real \<times> u64) list \<times> (real \<times> u64) list" where
  "get_snapshot depth b =
     (map (\<lambda>e. (fst e, total_quantity (snd e))) (take depth (bids b)),
      map (\<lambda>e. (fst e, total_quantity (snd e))) (take depth (asks b)))"

definition order_exists :: "u64 \<Rightarrow> order_book \<Rightarrow> bool" where
  "order_exists oid b = (order_lookup b oid \<noteq> None)"

definition get_best_bid :: "order_book \<Rightarrow> real" where
  "get_best_bid b = (case bids b of [] \<Rightarrow> 0 | e # _ \<Rightarrow> fst e)"

definition get_best_ask :: "order_book \<Rightarrow> real" where
  "get_best_ask b = (case asks b of [] \<Rightarrow> 0 | e # _ \<Rightarrow> fst e)"

definition get_spread :: "order_book \<Rightarrow> real" where
  "get_spread b = double_sub (get_best_ask b) (get_best_bid b)"

text \<open>\<^verbatim>\<open>print_order\<close>: the line printed shows the fields of the order, or that there is none.\<close>

definition print_order :: "u64 \<Rightarrow> order_book \<Rightarrow> order option" where
  "print_order oid b = order_lookup b oid"

section \<open>Notions used in the statements and proofs\<close>

subsection \<open>Well-formed books\<close>

text \<open>The entries of a side are in the order of its comparator.\<close>

definition side_sorted :: "bool \<Rightarrow> side \<Rightarrow> bool" where
  "side_sorted bs s = sorted_wrt (comparator bs) (map fst s)"

text \<open>
  The invariant of the data structure: the index is finite; both sides are ordered;
  the chain of every level is non-empty and without repetition, and every node linked
  in it is in the store and holds an order with the node's id, the side of the level
  and the price of the level; every node of the store is linked in the chain of the
  level at its price on its side.
\<close>

definition wf_book :: "order_book \<Rightarrow> bool" where
  "wf_book b \<longleftrightarrow>
     finite (dom (order_lookup b)) \<and>
     (\<forall>bs. side_sorted bs (side_of bs b)) \<and>
     (\<forall>bs p l. side_find p (side_of bs b) = Some l \<longrightarrow>
        fifo l \<noteq> [] \<and> distinct (fifo l) \<and>
        (\<forall>k\<in>set (fifo l). \<exists>ord. order_lookup b k = Some ord \<and> order_id ord = k \<and>
                                is_buy ord = bs \<and> price ord = p)) \<and>
     (\<forall>k ord. order_lookup b k = Some ord \<longrightarrow>
        (\<exists>l. side_find (price ord) (side_of (is_buy ord) b) = Some l \<and> k \<in> set (fifo l)))"

text \<open>Two books with the same levels and chains, holding orders with the same ids, sides and
  prices: they differ at most in quantities, aggregates, timestamps, statistics and output.\<close>

definition same_shape :: "order_book \<Rightarrow> order_book \<Rightarrow> bool" where
  "same_shape b' b \<longleftrightarrow>
     (\<forall>bs. map (\<lambda>e. (fst e, fifo (snd e))) (side_of bs b') =
           map (\<lambda>e. (fst e, fifo (snd e))) (side_of bs b)) \<and>
     (\<forall>k. map_option (\<lambda>ord. (order_id ord, is_buy ord, price ord)) (order_lookup b' k) =
          map_option (\<lambda>ord. (order_id ord, is_buy ord, price ord)) (order_lookup b k))"

subsection \<open>Reachable books\<close>

text \<open>The books between public calls: the empty book, and the book left by any call of a
  public operation, whatever its outcome, on such a book.\<close>

inductive reachable :: "order_book \<Rightarrow> bool" where
  initial: "reachable empty_book"
| after_add: "reachable b \<Longrightarrow> add_order ord m now b = Some (r, b') \<Longrightarrow> reachable b'"
| after_cancel: "reachable b \<Longrightarrow> cancel_order k b = (r, b') \<Longrightarrow> reachable b'"
| after_amend: "reachable b \<Longrightarrow> amend_order k p q m now b = Some (r, b') \<Longrightarrow> reachable b'"
| after_match: "reachable b \<Longrightarrow> match_orders b = Some b' \<Longrightarrow> reachable b'"

text \<open>Both sides are non-empty and the best bid is not below the best ask.\<close>

definition crossed :: "order_book \<Rightarrow> bool" where
  "crossed b \<longleftrightarrow> bids b \<noteq> [] \<and> asks b \<noteq> [] \<and> \<not> get_best_bid b < get_best_ask b"

text \<open>The three checks of \<open>add_order\<close> pass.\<close>

definition accepted :: "order \<Rightarrow> order_book \<Rightarrow> bool" where
  "accepted ord b \<longleftrightarrow> order_lookup b (order_id ord) = None \<and> quantity ord \<noteq> 0 \<and> price ord > 0"

text \<open>The order \<open>add_order\<close> stores: the clock replaces a zero timestamp.\<close>

definition stamped :: "order \<Rightarrow> u64 \<Rightarrow> order" where
  "stamped ord now = (if timestamp_ns ord = 0 then ord\<lparr>timestamp_ns := now\<rparr> else ord)"

text \<open>The test of \<open>amend_order\<close> for a new price.\<close>

definition price_changed :: "order \<Rightarrow> real \<Rightarrow> bool" where
  "price_changed ord np \<longleftrightarrow>
     \<bar>double_sub (price ord) np\<bar> > round_to_double (1 / 10 ^ 12)"

text \<open>The real number \<open>x\<close> is a double: rounding leaves it as it is.\<close>

definition is_double :: "real \<Rightarrow> bool" where
  "is_double x \<longleftrightarrow> round_to_double x = x"

subsection \<open>The books inside the operations\<close>

text \<open>The level of an order just linked by \<open>add_order_to_side\<close>, from the level found under its
  price before.\<close>

definition placed :: "order \<Rightarrow> price_level_data option \<Rightarrow> price_level_data" where
  "placed ord lo =
     (let l = (case lo of None \<Rightarrow> new_level | Some l \<Rightarrow> l)
      in l\<lparr>total_quantity := total_quantity l + quantity ord, fifo := fifo l @ [order_id ord]\<rparr>)"

text \<open>The level of an order just removed by \<open>remove_order_from_side\<close>, if it remains.\<close>

definition unlinked :: "u64 \<Rightarrow> order \<Rightarrow> price_level_data \<Rightarrow> price_level_data option" where
  "unlinked k node l =
     (if remove1 k (fifo l) = [] then None
      else Some \<lparr>total_quantity = (if total_quantity l \<ge> quantity node
                                   then total_quantity l - quantity node else 0),
                 fifo = remove1 k (fifo l)\<rparr>)"

text \<open>The book of \<open>execute_trade\<close> before the filled orders are removed.\<close>

definition settled :: "order \<Rightarrow> order \<Rightarrow> u64 \<Rightarrow> order_book \<Rightarrow> order_book" where
  "settled buy_order sell_order tq b =
     b\<lparr>trade_log := trade_log b @
          [\<lparr>trade_quantity = tq, trade_price = min (price buy_order) (price sell_order),
            buy_id = order_id buy_order, sell_id = order_id sell_order\<rparr>],
       total_trades := total_trades b + 1,
       total_volume := total_volume b + tq,
       order_lookup := (order_lookup b)
          (order_id buy_order \<mapsto> buy_order\<lparr>quantity := quantity buy_order - tq\<rparr>,
           order_id sell_order \<mapsto> sell_order\<lparr>quantity := quantity sell_order - tq\<rparr>),
       bids := side_modify (price buy_order)
                 (\<lambda>l. l\<lparr>total_quantity := total_quantity l - tq\<rparr>) (bids b),
       asks := side_modify (price sell_order)
                 (\<lambda>l. l\<lparr>total_quantity := total_quantity l - tq\<rparr>) (asks b)\<rparr>"

text \<open>The level of a traded order after \<open>execute_trade\<close>: its aggregate is decreased, and
  the order is unlinked if it was filled; the level is gone if its chain is then empty.\<close>

definition filled :: "u64 \<Rightarrow> u64 \<Rightarrow> bool \<Rightarrow> price_level_data \<Rightarrow> price_level_data option" where
  "filled k tq full l =
     (if full
      then (if remove1 k (fifo l) = [] then None
            else Some \<lparr>total_quantity = total_quantity l - tq, fifo = remove1 k (fifo l)\<rparr>)
      else Some (l\<lparr>total_quantity := total_quantity l - tq\<rparr>))"

text \<open>The book of \<open>amend_order\<close>'s in-place branch before matching.\<close>

definition resized :: "u64 \<Rightarrow> order \<Rightarrow> u64 \<Rightarrow> order_book \<Rightarrow> order_book" where
  "resized k ord nq b =
     (set_side (is_buy ord)
        (side_modify (price ord)
           (\<lambda>l. l\<lparr>total_quantity := total_quantity l + (nq - quantity ord)\<rparr>)
           (side_of (is_buy ord) b)) b)
     \<lparr>order_lookup := (order_lookup b)(k \<mapsto> ord\<lparr>quantity := nq\<rparr>)\<rparr>"

text \<open>What the loop of \<open>process_matching\<close> does next: it stops, or it dereferences a node that
  is not in the store, or it trades the two orders at the heads of the best levels.\<close>

datatype iteration = Stop | Undefined | Cross order order

definition next_iteration :: "order_book \<Rightarrow> iteration" where
  "next_iteration b =
     (case bids b of
        [] \<Rightarrow> Stop
      | (best_bid, bid_level) # _ \<Rightarrow>
          (case asks b of
             [] \<Rightarrow> Stop
           | (best_ask, ask_level) # _ \<Rightarrow>
               if best_bid < best_ask then Stop
               else (case fifo bid_level of
                       [] \<Rightarrow> Stop
                     | hb # _ \<Rightarrow>
                         (case fifo ask_level of
                            [] \<Rightarrow> Stop
                          | hs # _ \<Rightarrow>
                              (case order_lookup b hb of
                                 None \<Rightarrow> Undefined
                               | Some bo \<Rightarrow>
                                   (case order_lookup b hs of
                                      None \<Rightarrow> Undefined
                                    | Some so \<Rightarrow> Cross bo so))))))"

subsection \<open>Notions of the claims\<close>

text \<open>The trade \<open>t\<close> is between a buy and a sell order of the book \<open>b\<close>, at the lower of
  their two prices, which is the sell order's.\<close>

definition priced_at_min :: "order_book \<Rightarrow> trade \<Rightarrow> bool" where
  "priced_at_min b t =
     (case order_lookup b (buy_id t) of
        None \<Rightarrow> False
      | Some bo \<Rightarrow>
          (case order_lookup b (sell_id t) of
             None \<Rightarrow> False
           | Some so \<Rightarrow> is_buy bo \<and> \<not> is_buy so \<and>
                        trade_price t = min (price bo) (price so) \<and>
                        trade_price t = price so))"

text \<open>The price of the first level of a side.\<close>

definition best :: "bool \<Rightarrow> order_book \<Rightarrow> real" where
  "best bs b = fst (hd (side_of bs b))"

text \<open>The chain of the level at \<open>p\<close> on a side, empty when there is no such level.\<close>

definition chain_at :: "bool \<Rightarrow> real \<Rightarrow> order_book \<Rightarrow> u64 list" where
  "chain_at bs p b = (case side_find p (side_of bs b) of None \<Rightarrow> [] | Some l \<Rightarrow> fifo l)"

text \<open>The nodes linked in the chains of the two sides.\<close>

definition resting_ids :: "order_book \<Rightarrow> u64 list" where
  "resting_ids b = concat (map (\<lambda>e. fifo (snd e)) (bids b @ asks b))"

text \<open>Between the books \<open>b\<close> and \<open>b'\<close>, no order of a level of \<open>b\<close> was touched while an
  order ahead of it in the chain of the level was still in the book.\<close>

definition fifo_respected :: "order_book \<Rightarrow> order_book \<Rightarrow> bool" where
  "fifo_respected b b' \<longleftrightarrow>
     (\<forall>e\<in>set (bids b) \<union> set (asks b). \<forall>j<length (fifo (snd e)). \<forall>i<j.
        order_lookup b' (fifo (snd e) ! j) \<noteq> order_lookup b (fifo (snd e) ! j) \<longrightarrow>
        order_lookup b' (fifo (snd e) ! i) = None)"

text \<open>The quantity of the order in the node \<open>k\<close>, as a natural number.\<close>

definition qty_of :: "order_book \<Rightarrow> u64 \<Rightarrow> nat" where
  "qty_of b k = (case order_lookup b k of None \<Rightarrow> 0 | Some ord \<Rightarrow> unat (quantity ord))"

text \<open>The aggregate of a level is the sum of the quantities of the orders in its chain.\<close>

definition level_exact :: "order_book \<Rightarrow> price_level_data \<Rightarrow> bool" where
  "level_exact b l \<longleftrightarrow> unat (total_quantity l) = sum_list (map (qty_of b) (fifo l))"

definition aggregates_exact :: "order_book \<Rightarrow> bool" where
  "aggregates_exact b \<longleftrightarrow> list_all (\<lambda>e. level_exact b (snd e)) (bids b @ asks b)"

text \<open>The aggregate of the level at \<open>p\<close>, zero when there is no such level.\<close>

definition level_total :: "bool \<Rightarrow> real \<Rightarrow> order_book \<Rightarrow> u64" where
  "level_total bs p b = (case side_find p (side_of bs b) of None \<Rightarrow> 0 | Some l \<Rightarrow> total_quantity l)"

text \<open>The insert, or the amend, does not overflow the 64-bit aggregate of the level that
  receives the quantity.\<close>

definition fits_add :: "order \<Rightarrow> order_book \<Rightarrow> bool" where
  "fits_add ord b \<longleftrightarrow>
     unat (level_total (is_buy ord) (price ord) b) + unat (quantity ord) < 2 ^ 64"

definition fits_amend :: "u64 \<Rightarrow> real \<Rightarrow> u64 \<Rightarrow> order_book \<Rightarrow> bool" where
  "fits_amend k np nq b \<longleftrightarrow>
     (case order_lookup b k of
        None \<Rightarrow> True
      | Some ord \<Rightarrow>
          if price_changed ord np
          then unat (level_total (is_buy ord) np b) + unat nq < 2 ^ 64
          else unat (level_total (is_buy ord) (price ord) b) - unat (quantity ord) + unat nq
                 < 2 ^ 64)"

text \<open>The books reached from the empty book by public calls none of which overflows an
  aggregate.\<close>

inductive reachable_no_overflow :: "order_book \<Rightarrow> bool" where
  start: "reachable_no_overflow empty_book"
| add_fits: "reachable_no_overflow b \<Longrightarrow> fits_add ord b \<Longrightarrow>
     add_order ord m now b = Some (r, b') \<Longrightarrow> reachable_no_overflow b'"
| cancel_fits: "reachable_no_overflow b \<Longrightarrow> cancel_order k b = (r, b') \<Longrightarrow>
     reachable_no_overflow b'"
| amend_fits: "reachable_no_overflow b \<Longrightarrow> fits_amend k p q b \<Longrightarrow>
     amend_order k p q m now b = Some (r, b') \<Longrightarrow> reachable_no_overflow b'"
| match_fits: "reachable_no_overflow b \<Longrightarrow> match_orders b = Some b' \<Longrightarrow>
     reachable_no_overflow b'"

subsection \<open>Orders of the examples\<close>

text \<open>The orders of the test suite's cancellation, aggregation, matching and amend tests.\<close>

definition buy_1 :: order where
  "buy_1 = \<lparr>order_id = 1, is_buy = True, price = 100, quantity = 100, timestamp_ns = 1\<rparr>"

definition buy_2 :: order where
  "buy_2 = \<lparr>order_id = 2, is_buy = True, price = 100, quantity = 200, timestamp_ns = 2\<rparr>"

definition sell_2 :: order where
  "sell_2 = \<lparr>order_id = 2, is_buy = False, price = 99, quantity = 50, timestamp_ns = 2\<rparr>"

text \<open>A sell order that crosses both buy orders, and two buy orders whose quantities add up
  to \<open>2 ^ 64 + 1\<close>.\<close>

definition sell_3 :: order where
  "sell_3 = \<lparr>order_id = 3, is_buy = False, price = 100, quantity = 150, timestamp_ns = 3\<rparr>"

definition big_1 :: order where
  "big_1 = \<lparr>order_id = 1, is_buy = True, price = 100, quantity = 18446744073709551615,
            timestamp_ns = 1\<rparr>"

definition small_2 :: order where
  "small_2 = \<lparr>order_id = 2, is_buy = True, price = 100, quantity = 2, timestamp_ns = 2\<rparr>"

text \<open>A buy order at the double nearest to \<open>0.1\<close> and a sell order at the double nearest
  to \<open>100.3\<close>.\<close>

definition buy_low :: order where
  "buy_low = \<lparr>order_id = 1, is_buy = True, price = 3602879701896397 / 36028797018963968,
              quantity = 10, timestamp_ns = 1\<rparr>"

definition sell_high :: order where
  "sell_high = \<lparr>order_id = 2, is_buy = False, price = 7057985041019699 / 70368744177664,
               quantity = 10, timestamp_ns = 2\<rparr>"

section \<open>Lemmas\<close>

subsection \<open>Rounding to a double\<close>

lemma round_even_of_int: "round_even (of_int n) = n"
  by (simp add: round_even_def)

lemma round_even_cases: "round_even r = \<lfloor>r\<rfloor> \<or> round_even r = \<lfloor>r\<rfloor> + 1"
  by (simp add: round_even_def Let_def)

lemma round_even_mono: "r \<le> s \<Longrightarrow> round_even r \<le> round_even s"
proof -
  assume rs: "r \<le> s"
  have fl: "\<lfloor>r\<rfloor> \<le> \<lfloor>s\<rfloor>" using rs by (rule floor_mono)
  show ?thesis
  proof (cases "\<lfloor>r\<rfloor> = \<lfloor>s\<rfloor>")
    case True
    then show ?thesis using rs by (auto simp: round_even_def Let_def)
  next
    case False
    with fl have "\<lfloor>r\<rfloor> + 1 \<le> \<lfloor>s\<rfloor>" by simp
    moreover have "round_even r \<le> \<lfloor>r\<rfloor> + 1" using round_even_cases [of r] by auto
    moreover have "\<lfloor>s\<rfloor> \<le> round_even s" using round_even_cases [of s] by auto
    ultimately show ?thesis by linarith
  qed
qed

lemma round_even_nonneg: "0 \<le> r \<Longrightarrow> 0 \<le> round_even r"
  using round_even_mono [of 0 r] round_even_of_int [of 0] by simp

lemma binade_bounds:
  assumes "0 < x"
  shows "2 powi binade x \<le> x \<and> x < 2 powi (binade x + 1)"
proof (cases "1 \<le> x")
  case True
  then have n: "0 < \<lfloor>x\<rfloor>" by linarith
  from bitlen_bounds [OF n]
  have b: "2 ^ nat (bitlen \<lfloor>x\<rfloor> - 1) \<le> \<lfloor>x\<rfloor>" "\<lfloor>x\<rfloor> < 2 ^ nat (bitlen \<lfloor>x\<rfloor>)" by simp_all
  have pos: "0 < bitlen \<lfloor>x\<rfloor>"
  proof (rule ccontr)
    assume "\<not> 0 < bitlen \<lfloor>x\<rfloor>"
    then have "nat (bitlen \<lfloor>x\<rfloor>) = 0" by simp
    with b(2) n show False by simp
  qed
  have k: "binade x = bitlen \<lfloor>x\<rfloor> - 1" using True by (simp add: binade_def)
  have "(2::real) powi binade x = of_int (2 ^ nat (bitlen \<lfloor>x\<rfloor> - 1))"
    using pos by (simp add: k power_int_def)
  also have "\<dots> \<le> of_int \<lfloor>x\<rfloor>" using b(1) by (simp only: of_int_le_iff)
  also have "\<dots> \<le> x" by simp
  finally have 1: "2 powi binade x \<le> x" .
  have "\<lfloor>x\<rfloor> + 1 \<le> 2 ^ nat (bitlen \<lfloor>x\<rfloor>)" using b(2) by simp
  then have "(of_int (\<lfloor>x\<rfloor> + 1) :: real) \<le> of_int (2 ^ nat (bitlen \<lfloor>x\<rfloor>))"
    by (simp only: of_int_le_iff)
  then have "(of_int (\<lfloor>x\<rfloor> + 1) :: real) \<le> 2 ^ nat (bitlen \<lfloor>x\<rfloor>)" by simp
  moreover have "x < of_int (\<lfloor>x\<rfloor> + 1)" by linarith
  moreover have "(2::real) powi (binade x + 1) = 2 ^ nat (bitlen \<lfloor>x\<rfloor>)"
    using pos by (simp add: k power_int_def)
  ultimately have "x < 2 powi (binade x + 1)" by linarith
  with 1 show ?thesis ..
next
  case False
  then have x1: "x < 1" by simp
  define n where "n = \<lceil>1 / x\<rceil>"
  define m where "m = bitlen (n - 1)"
  have y1: "1 < 1 / x" using assms x1 by simp
  then have n2: "2 \<le> n" unfolding n_def by linarith
  then have n0: "0 < n - 1" by simp
  from bitlen_bounds [OF n0]
  have b: "2 ^ nat (m - 1) \<le> n - 1" "n - 1 < 2 ^ nat m" by (simp_all add: m_def)
  have pos: "0 < m"
  proof (rule ccontr)
    assume "\<not> 0 < m"
    then have "nat m = 0" by simp
    with b(2) n0 show False by simp
  qed
  have k: "binade x = - m" using False by (simp add: binade_def n_def m_def)
  have "n \<le> 2 ^ nat m" using b(2) by simp
  then have "(of_int n :: real) \<le> of_int (2 ^ nat m)" by (simp only: of_int_le_iff)
  then have "(of_int n :: real) \<le> 2 ^ nat m" by simp
  moreover have "1 / x \<le> of_int n" unfolding n_def by linarith
  ultimately have "1 / x \<le> 2 ^ nat m" by linarith
  then have "1 \<le> 2 ^ nat m * x" using assms by (simp add: field_simps)
  then have "1 / 2 ^ nat m \<le> x" by (simp add: field_simps)
  moreover have "(2::real) powi binade x = 1 / 2 ^ nat m"
    using pos by (simp add: k power_int_def field_simps)
  ultimately have 1: "2 powi binade x \<le> x" by simp
  have "(of_int (2 ^ nat (m - 1)) :: real) \<le> of_int (n - 1)" using b(1) by (simp only: of_int_le_iff)
  then have "(2::real) ^ nat (m - 1) \<le> of_int (n - 1)" by simp
  moreover have "of_int (n - 1) < 1 / x" unfolding n_def by linarith
  ultimately have "2 ^ nat (m - 1) < 1 / x" by linarith
  then have "2 ^ nat (m - 1) * x < 1" using assms by (simp add: field_simps)
  then have "x < 1 / 2 ^ nat (m - 1)" by (simp add: field_simps)
  moreover have "(2::real) powi (binade x + 1) = 1 / 2 ^ nat (m - 1)"
    using pos by (simp add: k power_int_def field_simps)
  ultimately have "x < 2 powi (binade x + 1)" by simp
  with 1 show ?thesis ..
qed

lemma powi_two_mono: "i \<le> j \<Longrightarrow> (2::real) powi i \<le> 2 powi j"
  by (rule power_int_increasing) simp_all

lemma binade_mono:
  assumes "0 < x" and "x \<le> y"
  shows "binade x \<le> binade y"
proof (rule ccontr)
  assume "\<not> binade x \<le> binade y"
  then have "binade y + 1 \<le> binade x" by simp
  then have "(2::real) powi (binade y + 1) \<le> 2 powi binade x" by (rule powi_two_mono)
  moreover have "y < 2 powi (binade y + 1)" using binade_bounds [of y] assms by simp
  moreover have "2 powi binade x \<le> x" using binade_bounds [OF assms(1)] by simp
  ultimately show False using assms(2) by linarith
qed


lemma quantum_expo: "quantum x = 2 powi expo x"
  by (simp add: quantum_def)

lemma quantum_pos: "0 < quantum x"
  by (simp add: quantum_def)

lemma expo_mono: "0 < x \<Longrightarrow> x \<le> y \<Longrightarrow> expo x \<le> expo y"
  using binade_mono [of x y] by (simp add: expo_def)

lemma round_to_double_pos:
  "0 < x \<Longrightarrow> round_to_double x = of_int (round_even (x / quantum x)) * quantum x"
  by (simp add: round_to_double_def)

lemma round_to_double_minus: "round_to_double (- x) = - round_to_double x"
  by (simp add: round_to_double_def sgn_minus)

lemma round_to_double_zero: "round_to_double 0 = 0"
  by (simp add: round_to_double_def)

lemma round_to_double_nonneg: "0 \<le> x \<Longrightarrow> 0 \<le> round_to_double x"
proof (cases "x = 0")
  case True
  then show ?thesis by (simp add: round_to_double_zero)
next
  case False
  assume "0 \<le> x"
  with False have x: "0 < x" by simp
  have "0 \<le> x / quantum x" using x quantum_pos [of x] by simp
  then have "0 \<le> round_even (x / quantum x)" by (rule round_even_nonneg)
  then show ?thesis using quantum_pos [of x] by (simp add: round_to_double_pos [OF x])
qed

lemma round_to_double_abs: "\<bar>round_to_double x\<bar> = round_to_double \<bar>x\<bar>"
proof (cases "0 \<le> x")
  case True
  then show ?thesis using round_to_double_nonneg [of x] by simp
next
  case False
  then have "0 \<le> - x" by simp
  from round_to_double_nonneg [OF this] False show ?thesis
    by (simp add: round_to_double_minus)
qed

lemma powi_two_quotient: "i \<le> j \<Longrightarrow> (2::real) powi j / 2 powi i = of_int (2 ^ nat (j - i))"
proof -
  assume "i \<le> j"
  have "(2::real) powi j / 2 powi i = 2 powi (j - i)" by (simp add: power_int_diff)
  also have "\<dots> = 2 ^ nat (j - i)" using \<open>i \<le> j\<close> by (simp add: power_int_def)
  finally show ?thesis by simp
qed

text \<open>A power of two that is a multiple of the quantum bounds the rounded value as it bounds
  the value.\<close>

lemma round_to_double_le_power:
  assumes "0 < x" and "x \<le> 2 powi j" and "expo x \<le> j"
  shows "round_to_double x \<le> 2 powi j"
proof -
  let ?q = "quantum x"
  have q: "0 < ?q" by (rule quantum_pos)
  have "x / ?q \<le> 2 powi j / ?q" using assms(2) q by (simp add: divide_right_mono)
  also have "\<dots> = of_int (2 ^ nat (j - expo x))"
    unfolding quantum_expo by (rule powi_two_quotient [OF assms(3)])
  finally have "round_even (x / ?q) \<le> round_even (of_int (2 ^ nat (j - expo x)))"
    by (rule round_even_mono)
  then have "round_even (x / ?q) \<le> 2 ^ nat (j - expo x)" by (simp only: round_even_of_int)
  then have "(of_int (round_even (x / ?q)) :: real) \<le> of_int (2 ^ nat (j - expo x))"
    by (simp only: of_int_le_iff)
  then have "of_int (round_even (x / ?q)) * ?q \<le> of_int (2 ^ nat (j - expo x)) * ?q"
    using q by (simp only: mult_le_cancel_right_pos)
  also have "of_int (2 ^ nat (j - expo x)) * ?q = 2 powi j"
    using powi_two_quotient [OF assms(3), symmetric] q by (simp add: quantum_expo)
  finally show ?thesis by (simp only: round_to_double_pos [OF assms(1)])
qed

lemma round_to_double_ge_power:
  assumes "0 < x" and "2 powi j \<le> x" and "expo x \<le> j"
  shows "2 powi j \<le> round_to_double x"
proof -
  let ?q = "quantum x"
  have q: "0 < ?q" by (rule quantum_pos)
  have e: "2 powi j / ?q = of_int (2 ^ nat (j - expo x))"
    unfolding quantum_expo by (rule powi_two_quotient [OF assms(3)])
  have "2 powi j / ?q \<le> x / ?q" using assms(2) q by (simp add: divide_right_mono)
  then have "of_int (2 ^ nat (j - expo x)) \<le> x / ?q" by (simp only: e)
  then have "round_even (of_int (2 ^ nat (j - expo x))) \<le> round_even (x / ?q)"
    by (rule round_even_mono)
  then have "2 ^ nat (j - expo x) \<le> round_even (x / ?q)" by (simp only: round_even_of_int)
  then have "(of_int (2 ^ nat (j - expo x)) :: real) \<le> of_int (round_even (x / ?q))"
    by (simp only: of_int_le_iff)
  then have "of_int (2 ^ nat (j - expo x)) * ?q \<le> of_int (round_even (x / ?q)) * ?q"
    using q by (simp only: mult_le_cancel_right_pos)
  moreover have "of_int (2 ^ nat (j - expo x)) * ?q = 2 powi j"
    using e q by (simp add: field_simps)
  ultimately show ?thesis by (simp only: round_to_double_pos [OF assms(1)])
qed

lemma round_to_double_mono_pos:
  assumes "0 < x" and "x \<le> y"
  shows "round_to_double x \<le> round_to_double y"
proof -
  have y: "0 < y" using assms by simp
  have le: "expo x \<le> expo y" by (rule expo_mono [OF assms])
  show ?thesis
  proof (cases "expo x = expo y")
    case True
    then have q: "quantum x = quantum y" by (simp add: quantum_expo)
    have "x / quantum y \<le> y / quantum y"
      using assms(2) quantum_pos [of y] by (simp add: divide_right_mono)
    then have "round_even (x / quantum y) \<le> round_even (y / quantum y)" by (rule round_even_mono)
    then have "(of_int (round_even (x / quantum y)) :: real) \<le> of_int (round_even (y / quantum y))"
      by (simp only: of_int_le_iff)
    then have "of_int (round_even (x / quantum y)) * quantum y
                 \<le> of_int (round_even (y / quantum y)) * quantum y"
      using quantum_pos [of y] by (simp only: mult_le_cancel_right_pos)
    then show ?thesis by (simp only: round_to_double_pos [OF assms(1)] round_to_double_pos [OF y] q)
  next
    case False
    with le have lt: "expo x < expo y" by simp
    then have ey: "expo y = binade y - 52" and ex: "expo x < binade y - 52"
      by (auto simp: expo_def max_def split: if_splits)
    have bx: "binade x < binade y" using lt by (auto simp: expo_def max_def split: if_splits)
    let ?j = "binade y"
    have "x < 2 powi (binade x + 1)" using binade_bounds [OF assms(1)] by simp
    also have "\<dots> \<le> 2 powi ?j" using bx by (intro powi_two_mono) simp
    finally have xj: "x \<le> 2 powi ?j" by simp
    have jy: "2 powi ?j \<le> y" using binade_bounds [OF y] by simp
    have "round_to_double x \<le> 2 powi ?j"
      using ex by (intro round_to_double_le_power [OF assms(1) xj]) simp
    also have "\<dots> \<le> round_to_double y"
      using ey by (intro round_to_double_ge_power [OF y jy]) simp
    finally show ?thesis .
  qed
qed

lemma round_to_double_mono: "x \<le> y \<Longrightarrow> round_to_double x \<le> round_to_double y"
proof -
  assume xy: "x \<le> y"
  consider "0 < x" | "x \<le> 0" "0 \<le> y" | "y < 0" by linarith
  then show ?thesis
  proof cases
    case 1
    then show ?thesis using xy by (rule round_to_double_mono_pos)
  next
    case 2
    have "round_to_double x \<le> 0"
      using round_to_double_nonneg [of "- x"] 2(1) by (simp add: round_to_double_minus)
    also have "0 \<le> round_to_double y" using 2(2) by (rule round_to_double_nonneg)
    finally show ?thesis .
  next
    case 3
    then have "0 < - y" "- y \<le> - x" using xy by simp_all
    then have "round_to_double (- y) \<le> round_to_double (- x)" by (rule round_to_double_mono_pos)
    then show ?thesis by (simp add: round_to_double_minus)
  qed
qed

text \<open>The test of \<open>amend_order\<close> for a new price and the exact difference of the prices.\<close>

lemma epsilon_nonneg: "0 \<le> round_to_double (1 / 10 ^ 12)"
  by (rule round_to_double_nonneg) simp

lemma price_changed_neq: "price_changed ord np \<Longrightarrow> np \<noteq> price ord"
  using epsilon_nonneg by (auto simp: price_changed_def double_sub_def round_to_double_zero)

lemma within_epsilon_unchanged:
  assumes "\<bar>price ord - np\<bar> \<le> 1 / 10 ^ 12"
  shows "\<not> price_changed ord np"
proof -
  have "\<bar>double_sub (price ord) np\<bar> = round_to_double \<bar>price ord - np\<bar>"
    by (simp only: double_sub_def round_to_double_abs)
  also have "\<dots> \<le> round_to_double (1 / 10 ^ 12)" using assms by (rule round_to_double_mono)
  finally show ?thesis by (simp add: price_changed_def)
qed

lemma price_changed_exceeds: "price_changed ord np \<Longrightarrow> \<bar>price ord - np\<bar> > 1 / 10 ^ 12"
  using within_epsilon_unchanged [of ord np] by (rule_tac ccontr) simp

subsection \<open>The ordered maps\<close>

lemma comparator_irrefl: "\<not> comparator bs x x"
  by (simp add: comparator_def)

lemma comparator_trans: "comparator bs x y \<Longrightarrow> comparator bs y z \<Longrightarrow> comparator bs x z"
  by (auto simp: comparator_def)

lemma comparator_total: "\<not> comparator bs x y \<Longrightarrow> \<not> comparator bs y x \<Longrightarrow> x = y"
  by (auto simp: comparator_def split: if_splits)

lemma side_sorted_Nil: "side_sorted bs []"
  by (simp add: side_sorted_def)

lemma side_sorted_distinct: "side_sorted bs s \<Longrightarrow> distinct (map fst s)"
  unfolding side_sorted_def
  by (induction s) (auto simp: comparator_irrefl)

lemma side_sorted_tail: "side_sorted bs (e # s) \<Longrightarrow> side_sorted bs s"
  by (simp add: side_sorted_def)

lemma side_sorted_head_absent:
  "side_sorted bs ((q, l) # s) \<Longrightarrow> comparator bs p q \<or> p = q \<Longrightarrow> map_of s p = None"
proof -
  assume a: "side_sorted bs ((q, l) # s)" and b: "comparator bs p q \<or> p = q"
  have "p \<notin> fst ` set s"
  proof
    assume "p \<in> fst ` set s"
    with a have "comparator bs q p" by (auto simp: side_sorted_def)
    with b show False using comparator_trans comparator_irrefl by blast
  qed
  then show ?thesis by (simp add: map_of_eq_None_iff)
qed

lemma find_side_modify:
  "side_find q (side_modify p f s) = (if q = p then map_option f (side_find p s) else side_find q s)"
  unfolding side_find_def side_modify_def
  by (induction s) auto

lemma keys_side_modify: "map fst (side_modify p f s) = map fst s"
  by (simp add: side_modify_def comp_def)

lemma sorted_side_modify: "side_sorted bs (side_modify p f s) = side_sorted bs s"
  by (simp add: side_sorted_def keys_side_modify)

lemma find_side_erase:
  "side_find q (side_erase p s) = (if q = p then None else side_find q s)"
  unfolding side_find_def side_erase_def
  by (induction s) auto

lemma sorted_side_erase: "side_sorted bs s \<Longrightarrow> side_sorted bs (side_erase p s)"
  unfolding side_sorted_def side_erase_def
  by (induction s) auto

lemma keys_side_index: "fst ` set (side_index bs p s) = insert p (fst ` set s)"
  by (induction bs p s rule: side_index.induct) (auto dest: comparator_total)

lemma sorted_side_index: "side_sorted bs s \<Longrightarrow> side_sorted bs (side_index bs p s)"
proof (induction bs p s rule: side_index.induct)
  case (1 bs p)
  then show ?case by (simp add: side_sorted_def)
next
  case (2 bs p q l rest)
  show ?case
  proof (cases "comparator bs p q")
    case True
    with 2 show ?thesis by (auto simp: side_sorted_def intro: comparator_trans)
  next
    case False
    note nf = this
    show ?thesis
    proof (cases "comparator bs q p")
      case True
      have "side_sorted bs (side_index bs p rest)"
        using 2 nf True by (simp add: side_sorted_def)
      moreover have "\<forall>x\<in>fst ` set (side_index bs p rest). comparator bs q x"
        using 2(2) True by (auto simp: keys_side_index side_sorted_def)
      ultimately show ?thesis using nf True by (simp add: side_sorted_def)
    next
      case False
      with nf 2 show ?thesis by simp
    qed
  qed
qed

lemma find_side_index:
  "side_sorted bs s \<Longrightarrow>
   side_find q (side_index bs p s) =
     (if q = p \<and> side_find p s = None then Some new_level else side_find q s)"
proof (induction bs p s rule: side_index.induct)
  case (1 bs p)
  then show ?case by (simp add: side_find_def)
next
  case (2 bs p q' l rest)
  show ?case
  proof (cases "comparator bs p q'")
    case True
    then have "p \<noteq> q'" using comparator_irrefl by auto
    moreover have "map_of rest p = None"
      using side_sorted_head_absent [OF 2(2)] True by simp
    ultimately show ?thesis using True by (simp add: side_find_def)
  next
    case False
    note nf = this
    show ?thesis
    proof (cases "comparator bs q' p")
      case True
      then have "p \<noteq> q'" using comparator_irrefl by auto
      then show ?thesis
        using 2(1) [OF nf True side_sorted_tail [OF 2(2)]] nf True
        unfolding side_find_def by auto
    next
      case False
      with nf have "p = q'" by (rule comparator_total)
      with nf show ?thesis by (simp add: side_find_def comparator_irrefl)
    qed
  qed
qed

lemma find_head: "s = (p, l) # rest \<Longrightarrow> side_find p s = Some l"
  by (simp add: side_find_def)

lemma find_in_set: "side_find p s = Some l \<Longrightarrow> (p, l) \<in> set s"
  by (simp add: side_find_def map_of_SomeD)

lemma in_set_find: "side_sorted bs s \<Longrightarrow> (p, l) \<in> set s \<Longrightarrow> side_find p s = Some l"
  by (simp add: side_find_def side_sorted_distinct)

subsection \<open>Well-formed books\<close>

lemma side_of_set_side:
  "side_of bs' (set_side bs s b) = (if bs' = bs then s else side_of bs' b)"
  by (simp add: side_of_def set_side_def)

lemma lookup_set_side: "order_lookup (set_side bs s b) = order_lookup b"
  by (simp add: set_side_def)

lemma stats_set_side:
  "total_trades (set_side bs s b) = total_trades b"
  "total_volume (set_side bs s b) = total_volume b"
  "trade_log (set_side bs s b) = trade_log b"
  by (simp_all add: set_side_def)

lemma side_of_lookup_update: "side_of bs (b\<lparr>order_lookup := m\<rparr>) = side_of bs b"
  by (simp add: side_of_def)

lemma wf_bookI:
  assumes "finite (dom (order_lookup b))"
    and "\<And>bs. side_sorted bs (side_of bs b)"
    and "\<And>bs p l. side_find p (side_of bs b) = Some l \<Longrightarrow> fifo l \<noteq> [] \<and> distinct (fifo l)"
    and "\<And>bs p l k. side_find p (side_of bs b) = Some l \<Longrightarrow> k \<in> set (fifo l) \<Longrightarrow>
           \<exists>ord. order_lookup b k = Some ord \<and> order_id ord = k \<and> is_buy ord = bs \<and> price ord = p"
    and "\<And>k ord. order_lookup b k = Some ord \<Longrightarrow>
           \<exists>l. side_find (price ord) (side_of (is_buy ord) b) = Some l \<and> k \<in> set (fifo l)"
  shows "wf_book b"
  unfolding wf_book_def using assms by blast

lemma wf_finite: "wf_book b \<Longrightarrow> finite (dom (order_lookup b))"
  by (simp add: wf_book_def)

lemma wf_sorted: "wf_book b \<Longrightarrow> side_sorted bs (side_of bs b)"
  by (simp add: wf_book_def)

lemma wf_level:
  "wf_book b \<Longrightarrow> side_find p (side_of bs b) = Some l \<Longrightarrow> fifo l \<noteq> [] \<and> distinct (fifo l)"
  unfolding wf_book_def by blast

lemma wf_member:
  "wf_book b \<Longrightarrow> side_find p (side_of bs b) = Some l \<Longrightarrow> k \<in> set (fifo l) \<Longrightarrow>
   \<exists>ord. order_lookup b k = Some ord \<and> order_id ord = k \<and> is_buy ord = bs \<and> price ord = p"
  unfolding wf_book_def by blast

lemma wf_indexed:
  "wf_book b \<Longrightarrow> order_lookup b k = Some ord \<Longrightarrow>
   \<exists>l. side_find (price ord) (side_of (is_buy ord) b) = Some l \<and> k \<in> set (fifo l)"
  unfolding wf_book_def by blast

lemma wf_empty_book: "wf_book empty_book"
  by (simp add: wf_book_def empty_book_def side_of_def side_sorted_def side_find_def)

subsection \<open>add_order_to_side\<close>

lemma add_order_to_side_lookup:
  "order_lookup (add_order_to_side ord bs b) = (order_lookup b)(order_id ord \<mapsto> ord)"
  by (simp add: add_order_to_side_def Let_def lookup_set_side)

lemma add_order_to_side_stats:
  "total_trades (add_order_to_side ord bs b) = total_trades b"
  "total_volume (add_order_to_side ord bs b) = total_volume b"
  "trade_log (add_order_to_side ord bs b) = trade_log b"
  by (simp_all add: add_order_to_side_def Let_def stats_set_side)

lemma add_order_to_side_other:
  "bs' \<noteq> bs \<Longrightarrow> side_of bs' (add_order_to_side ord bs b) = side_of bs' b"
  by (simp add: add_order_to_side_def Let_def side_of_set_side side_of_lookup_update)

lemma add_order_to_side_same:
  "side_of bs (add_order_to_side ord bs b) =
     side_modify (price ord)
       (\<lambda>l. l\<lparr>total_quantity := total_quantity l + quantity ord, fifo := fifo l @ [order_id ord]\<rparr>)
       (side_index bs (price ord) (side_of bs b))"
  by (simp add: add_order_to_side_def Let_def side_of_set_side side_of_lookup_update)

lemma add_order_to_side_sorted:
  "side_sorted bs' (side_of bs' b) \<Longrightarrow> side_sorted bs' (side_of bs' (add_order_to_side ord bs b))"
  by (cases "bs' = bs")
     (simp_all add: add_order_to_side_other add_order_to_side_same sorted_side_modify sorted_side_index)

lemma add_order_to_side_find:
  assumes "side_sorted bs (side_of bs b)"
  shows "side_find q (side_of bs' (add_order_to_side ord bs b)) =
           (if bs' = bs \<and> q = price ord
            then Some (placed ord (side_find (price ord) (side_of bs b)))
            else side_find q (side_of bs' b))"
proof (cases "bs' = bs")
  case False
  then show ?thesis by (simp add: add_order_to_side_other)
next
  case True
  show ?thesis
    unfolding True add_order_to_side_same find_side_modify find_side_index [OF assms]
    by (auto simp: placed_def Let_def split: option.splits)
qed

lemma wf_add_order_to_side:
  assumes wf: "wf_book b" and fresh: "order_lookup b (order_id ord) = None"
  shows "wf_book (add_order_to_side ord (is_buy ord) b)"
proof (rule wf_bookI)
  let ?b = "add_order_to_side ord (is_buy ord) b"
  note fnd = add_order_to_side_find [OF wf_sorted [OF wf]]
  have notin: "order_id ord \<notin> set (fifo l)" if "side_find p (side_of bs b) = Some l" for p bs l
  proof
    assume "order_id ord \<in> set (fifo l)"
    from wf_member [OF wf that this] obtain o' where "order_lookup b (order_id ord) = Some o'"
      by blast
    with fresh show False by simp
  qed
  show "finite (dom (order_lookup ?b))"
    using wf_finite [OF wf] by (simp add: add_order_to_side_lookup)
  show "side_sorted bs (side_of bs ?b)" for bs
    by (rule add_order_to_side_sorted [OF wf_sorted [OF wf]])
  show "fifo l \<noteq> [] \<and> distinct (fifo l)" if "side_find p (side_of bs ?b) = Some l" for bs p l
  proof (cases "bs = is_buy ord \<and> p = price ord")
    case True
    with that have l: "l = placed ord (side_find (price ord) (side_of (is_buy ord) b))"
      by (simp add: fnd)
    show ?thesis
      unfolding l using wf_level [OF wf] notin
      by (auto simp: placed_def Let_def new_level_def split: option.splits)
  next
    case False
    with that have "side_find p (side_of bs b) = Some l" by (simp add: fnd split: if_splits)
    then show ?thesis by (rule wf_level [OF wf])
  qed
  show "\<exists>ord'. order_lookup ?b k = Some ord' \<and> order_id ord' = k \<and> is_buy ord' = bs \<and> price ord' = p"
    if "side_find p (side_of bs ?b) = Some l" and k: "k \<in> set (fifo l)" for bs p l k
  proof (cases "bs = is_buy ord \<and> p = price ord")
    case True
    with that have l: "l = placed ord (side_find (price ord) (side_of (is_buy ord) b))"
      by (simp add: fnd)
    show ?thesis
    proof (cases "k = order_id ord")
      case True
      with \<open>bs = is_buy ord \<and> p = price ord\<close> show ?thesis by (simp add: add_order_to_side_lookup)
    next
      case False
      with k l obtain l0 where l0: "side_find (price ord) (side_of (is_buy ord) b) = Some l0"
        and "k \<in> set (fifo l0)"
        by (auto simp: placed_def Let_def new_level_def split: option.splits)
      from wf_member [OF wf l0 this(2)] False True show ?thesis
        by (simp add: add_order_to_side_lookup)
    qed
  next
    case False
    with that have f: "side_find p (side_of bs b) = Some l" by (simp add: fnd split: if_splits)
    from notin [OF f] k have "k \<noteq> order_id ord" by auto
    with wf_member [OF wf f k] show ?thesis by (simp add: add_order_to_side_lookup)
  qed
  show "\<exists>l. side_find (price ord') (side_of (is_buy ord') ?b) = Some l \<and> k \<in> set (fifo l)"
    if "order_lookup ?b k = Some ord'" for k ord'
  proof (cases "k = order_id ord")
    case True
    with that have "ord' = ord" by (simp add: add_order_to_side_lookup)
    with True show ?thesis by (simp add: fnd placed_def Let_def)
  next
    case False
    with that have "order_lookup b k = Some ord'" by (simp add: add_order_to_side_lookup)
    from wf_indexed [OF wf this] obtain l where
      l: "side_find (price ord') (side_of (is_buy ord') b) = Some l" "k \<in> set (fifo l)" by blast
    then show ?thesis by (auto simp: fnd placed_def Let_def)
  qed
qed

subsection \<open>remove_order_from_side\<close>

lemma remove_order_from_side_absent:
  "order_lookup b k = None \<Longrightarrow> remove_order_from_side k bs b = (False, b)"
  by (simp add: remove_order_from_side_def)

lemma remove_order_from_side_no_level:
  "order_lookup b k = Some node \<Longrightarrow> side_find (price node) (side_of bs b) = None \<Longrightarrow>
   remove_order_from_side k bs b = (False, b)"
  by (simp add: remove_order_from_side_def)

lemma remove_order_from_side_False:
  "remove_order_from_side k bs b = (False, b') \<Longrightarrow> b' = b"
  by (auto simp: remove_order_from_side_def Let_def split: option.splits)

lemma remove_order_from_side_fst:
  "order_lookup b k = Some node \<Longrightarrow> side_find (price node) (side_of bs b) = Some l \<Longrightarrow>
   fst (remove_order_from_side k bs b) = True"
  by (simp add: remove_order_from_side_def Let_def)

lemma remove_order_from_side_lookup:
  "order_lookup b k = Some node \<Longrightarrow> side_find (price node) (side_of bs b) = Some l \<Longrightarrow>
   order_lookup (snd (remove_order_from_side k bs b)) = (order_lookup b)(k := None)"
  by (simp add: remove_order_from_side_def Let_def lookup_set_side)

lemma remove_order_from_side_stats:
  "total_trades (snd (remove_order_from_side k bs b)) = total_trades b"
  "total_volume (snd (remove_order_from_side k bs b)) = total_volume b"
  "trade_log (snd (remove_order_from_side k bs b)) = trade_log b"
  by (simp_all add: remove_order_from_side_def Let_def stats_set_side split: option.splits)

lemma remove_order_from_side_other:
  "bs' \<noteq> bs \<Longrightarrow> side_of bs' (snd (remove_order_from_side k bs b)) = side_of bs' b"
  by (simp add: remove_order_from_side_def Let_def side_of_set_side side_of_lookup_update
      split: option.splits)

lemma remove_order_from_side_sorted:
  "side_sorted bs' (side_of bs' b) \<Longrightarrow>
   side_sorted bs' (side_of bs' (snd (remove_order_from_side k bs b)))"
  by (cases "bs' = bs")
     (simp_all add: remove_order_from_side_def Let_def side_of_set_side side_of_lookup_update
        sorted_side_modify sorted_side_erase split: option.splits)

lemma remove_order_from_side_find:
  "order_lookup b k = Some node \<Longrightarrow> side_find (price node) (side_of bs b) = Some l \<Longrightarrow>
   side_find q (side_of bs' (snd (remove_order_from_side k bs b))) =
     (if bs' = bs \<and> q = price node then unlinked k node l else side_find q (side_of bs' b))"
  by (cases "bs' = bs")
     (simp_all add: remove_order_from_side_def Let_def side_of_set_side side_of_lookup_update
        find_side_modify find_side_erase unlinked_def)

lemma wf_remove_order_from_side:
  assumes wf: "wf_book b" and lk: "order_lookup b k = Some node"
  shows "wf_book (snd (remove_order_from_side k (is_buy node) b))"
proof -
  let ?b = "snd (remove_order_from_side k (is_buy node) b)"
  from wf_indexed [OF wf lk] obtain l where
    lv: "side_find (price node) (side_of (is_buy node) b) = Some l" and kl: "k \<in> set (fifo l)"
    by blast
  note lku = remove_order_from_side_lookup [OF lk lv]
  note fnd = remove_order_from_side_find [OF lk lv]
  have dl: "distinct (fifo l)" using wf_level [OF wf lv] by simp
  have old: "\<exists>l0. side_find p (side_of bs b) = Some l0 \<and> set (fifo l') \<subseteq> set (fifo l0) - {k}
                  \<and> fifo l' \<noteq> [] \<and> distinct (fifo l')"
    if f: "side_find p (side_of bs ?b) = Some l'" for bs p l'
  proof (cases "bs = is_buy node \<and> p = price node")
    case True
    with f have "unlinked k node l = Some l'" by (simp add: fnd)
    then have "fifo l' = remove1 k (fifo l)" "fifo l' \<noteq> []"
      by (auto simp: unlinked_def split: if_splits)
    with True lv dl show ?thesis by auto
  next
    case False
    with f have f0: "side_find p (side_of bs b) = Some l'" by (simp add: fnd split: if_splits)
    have "k \<notin> set (fifo l')"
    proof
      assume "k \<in> set (fifo l')"
      from wf_member [OF wf f0 this] lk have "is_buy node = bs \<and> price node = p" by auto
      with False show False by simp
    qed
    with f0 wf_level [OF wf f0] show ?thesis by auto
  qed
  show ?thesis
  proof (rule wf_bookI)
    show "finite (dom (order_lookup ?b))" using wf_finite [OF wf] by (simp add: lku)
    show "side_sorted bs (side_of bs ?b)" for bs
      by (rule remove_order_from_side_sorted [OF wf_sorted [OF wf]])
    show "fifo l' \<noteq> [] \<and> distinct (fifo l')" if "side_find p (side_of bs ?b) = Some l'" for bs p l'
      using old [OF that] by blast
    show "\<exists>ord'. order_lookup ?b k' = Some ord' \<and> order_id ord' = k' \<and> is_buy ord' = bs \<and> price ord' = p"
      if "side_find p (side_of bs ?b) = Some l'" and k': "k' \<in> set (fifo l')" for bs p l' k'
    proof -
      from old [OF that(1)] k' obtain l0 where
        "side_find p (side_of bs b) = Some l0" "k' \<in> set (fifo l0)" "k' \<noteq> k" by blast
      with wf_member [OF wf this(1,2)] show ?thesis by (simp add: lku)
    qed
    show "\<exists>l'. side_find (price ord') (side_of (is_buy ord') ?b) = Some l' \<and> k' \<in> set (fifo l')"
      if "order_lookup ?b k' = Some ord'" for k' ord'
    proof -
      from that have ne: "k' \<noteq> k" and lk': "order_lookup b k' = Some ord'"
        by (auto simp: lku split: if_splits)
      from wf_indexed [OF wf lk'] obtain l0 where
        l0: "side_find (price ord') (side_of (is_buy ord') b) = Some l0" "k' \<in> set (fifo l0)"
        by blast
      show ?thesis
      proof (cases "is_buy ord' = is_buy node \<and> price ord' = price node")
        case True
        with l0 lv have "l0 = l" by simp
        with l0 ne have "k' \<in> set (remove1 k (fifo l))" by simp
        then have "remove1 k (fifo l) \<noteq> []" by auto
        with True \<open>k' \<in> set (remove1 k (fifo l))\<close> show ?thesis
          by (simp add: fnd unlinked_def)
      next
        case False
        with l0 show ?thesis by (auto simp: fnd)
      qed
    qed
  qed
qed

subsection \<open>Changes that leave the shape of the book alone\<close>

lemma map_of_shape:
  "map_of (map (\<lambda>e. (fst e, fifo (snd e))) t) p = map_option fifo (map_of t p)"
  by (induction t) auto

lemma shape_find:
  assumes "map (\<lambda>e. (fst e, fifo (snd e))) s' = map (\<lambda>e. (fst e, fifo (snd e))) s"
  shows "map_option fifo (side_find p s') = map_option fifo (side_find p s)"
proof -
  have "map_option fifo (side_find p s') = map_of (map (\<lambda>e. (fst e, fifo (snd e))) s') p"
    by (simp add: side_find_def map_of_shape)
  also have "\<dots> = map_of (map (\<lambda>e. (fst e, fifo (snd e))) s) p"
    by (simp only: assms)
  also have "\<dots> = map_option fifo (side_find p s)"
    by (simp add: side_find_def map_of_shape)
  finally show ?thesis .
qed

lemma shape_keys:
  assumes "map (\<lambda>e. (fst e, fifo (snd e))) s' = map (\<lambda>e. (fst e, fifo (snd e))) s"
  shows "map fst s' = map fst (s :: side)"
proof -
  have "map fst s' = map fst (map (\<lambda>e. (fst e, fifo (snd e))) s')"
    by (simp add: comp_def)
  also have "\<dots> = map fst (map (\<lambda>e. (fst e, fifo (snd e))) s)"
    by (simp only: assms)
  also have "\<dots> = map fst s"
    by (simp add: comp_def)
  finally show ?thesis .
qed

lemma same_shape_lookup_fwd:
  assumes "same_shape b' b" "order_lookup b' k = Some ord'"
  shows "\<exists>ord. order_lookup b k = Some ord \<and> order_id ord = order_id ord' \<and>
               is_buy ord = is_buy ord' \<and> price ord = price ord'"
proof -
  from assms(1) have "map_option (\<lambda>ord. (order_id ord, is_buy ord, price ord)) (order_lookup b' k) =
      map_option (\<lambda>ord. (order_id ord, is_buy ord, price ord)) (order_lookup b k)"
    unfolding same_shape_def by blast
  with assms(2) have "map_option (\<lambda>ord. (order_id ord, is_buy ord, price ord)) (order_lookup b k) =
      Some (order_id ord', is_buy ord', price ord')"
    by (simp del: map_option_eq_Some)
  then show ?thesis by (cases "order_lookup b k") simp_all
qed

lemma same_shape_lookup_bwd:
  assumes "same_shape b' b" "order_lookup b k = Some ord"
  shows "\<exists>ord'. order_lookup b' k = Some ord' \<and> order_id ord' = order_id ord \<and>
               is_buy ord' = is_buy ord \<and> price ord' = price ord"
proof -
  from assms(1) have "map_option (\<lambda>ord. (order_id ord, is_buy ord, price ord)) (order_lookup b' k) =
      map_option (\<lambda>ord. (order_id ord, is_buy ord, price ord)) (order_lookup b k)"
    unfolding same_shape_def by blast
  with assms(2) have "map_option (\<lambda>ord. (order_id ord, is_buy ord, price ord)) (order_lookup b' k) =
      Some (order_id ord, is_buy ord, price ord)"
    by (simp del: map_option_eq_Some)
  then show ?thesis by (cases "order_lookup b' k") simp_all
qed

lemma same_shape_find_fwd:
  assumes "same_shape b' b" "side_find p (side_of bs b') = Some l'"
  shows "\<exists>l. side_find p (side_of bs b) = Some l \<and> fifo l = fifo l'"
proof -
  from assms(1) have "map_option fifo (side_find p (side_of bs b')) =
      map_option fifo (side_find p (side_of bs b))"
    by (intro shape_find) (simp add: same_shape_def)
  with assms(2) have "map_option fifo (side_find p (side_of bs b)) = Some (fifo l')"
    by (simp del: map_option_eq_Some)
  then show ?thesis by (cases "side_find p (side_of bs b)") simp_all
qed

lemma same_shape_find_bwd:
  assumes "same_shape b' b" "side_find p (side_of bs b) = Some l"
  shows "\<exists>l'. side_find p (side_of bs b') = Some l' \<and> fifo l' = fifo l"
proof -
  from assms(1) have "map_option fifo (side_find p (side_of bs b')) =
      map_option fifo (side_find p (side_of bs b))"
    by (intro shape_find) (simp add: same_shape_def)
  with assms(2) have "map_option fifo (side_find p (side_of bs b')) = Some (fifo l)"
    by (simp del: map_option_eq_Some)
  then show ?thesis by (cases "side_find p (side_of bs b')") simp_all
qed

lemma same_shape_dom: 
  assumes "same_shape b' b" shows "dom (order_lookup b') = dom (order_lookup b)"
proof (intro set_eqI iffI)
  fix k assume "k \<in> dom (order_lookup b')"
  then obtain ord' where "order_lookup b' k = Some ord'" by blast
  from same_shape_lookup_fwd [OF assms this] show "k \<in> dom (order_lookup b)" by blast
next
  fix k assume "k \<in> dom (order_lookup b)"
  then obtain ord where "order_lookup b k = Some ord" by blast
  from same_shape_lookup_bwd [OF assms this] show "k \<in> dom (order_lookup b')" by blast
qed

lemma same_shape_sorted:
  assumes "same_shape b' b" "side_sorted bs (side_of bs b)"
  shows "side_sorted bs (side_of bs b')"
proof -
  have "map fst (side_of bs b') = map fst (side_of bs b)"
    using assms(1) by (intro shape_keys) (simp add: same_shape_def)
  then show ?thesis using assms(2) by (simp add: side_sorted_def)
qed

lemma wf_same_shape:
  assumes wf: "wf_book b" and sh: "same_shape b' b"
  shows "wf_book b'"
proof (rule wf_bookI)
  show "finite (dom (order_lookup b'))"
    using wf_finite [OF wf] by (simp add: same_shape_dom [OF sh])
  show "side_sorted bs (side_of bs b')" for bs
    by (rule same_shape_sorted [OF sh wf_sorted [OF wf]])
  show "fifo l \<noteq> [] \<and> distinct (fifo l)" if "side_find p (side_of bs b') = Some l" for bs p l
  proof -
    from same_shape_find_fwd [OF sh that] obtain l0 where
      l0: "side_find p (side_of bs b) = Some l0" "fifo l0 = fifo l" by blast
    from wf_level [OF wf l0(1)] l0(2) show ?thesis by simp
  qed
  show "\<exists>ord. order_lookup b' k = Some ord \<and> order_id ord = k \<and> is_buy ord = bs \<and> price ord = p"
    if "side_find p (side_of bs b') = Some l" and "k \<in> set (fifo l)" for bs p l k
  proof -
    from same_shape_find_fwd [OF sh that(1)] that(2) obtain l0 where
      l0: "side_find p (side_of bs b) = Some l0" "k \<in> set (fifo l0)" by auto
    from wf_member [OF wf l0] obtain ord where
      ord: "order_lookup b k = Some ord" "order_id ord = k" "is_buy ord = bs" "price ord = p"
      by blast
    from same_shape_lookup_bwd [OF sh ord(1)] ord(2-) show ?thesis by auto
  qed
  show "\<exists>l. side_find (price ord) (side_of (is_buy ord) b') = Some l \<and> k \<in> set (fifo l)"
    if "order_lookup b' k = Some ord" for k ord
  proof -
    from same_shape_lookup_fwd [OF sh that] obtain ord0 where
      o0: "order_lookup b k = Some ord0" "is_buy ord0 = is_buy ord" "price ord0 = price ord"
      by blast
    from wf_indexed [OF wf o0(1)] o0(2-) obtain l0 where
      l0: "side_find (price ord) (side_of (is_buy ord) b) = Some l0" "k \<in> set (fifo l0)"
      by auto
    from same_shape_find_bwd [OF sh l0(1)] l0(2) show ?thesis by auto
  qed
qed

subsection \<open>execute_trade\<close>

lemma execute_trade_settled:
  "execute_trade bo so tq b =
     (let b4 = settled bo so tq b;
          b5 = (if quantity bo = tq
                then snd (remove_order_from_side (order_id bo) True b4) else b4)
      in if quantity so = tq
         then snd (remove_order_from_side (order_id so) False b5) else b5)"
  by (simp add: execute_trade_def settled_def Let_def)

lemma settled_lookup:
  "order_lookup (settled bo so tq b) =
     (order_lookup b)(order_id bo \<mapsto> bo\<lparr>quantity := quantity bo - tq\<rparr>,
                      order_id so \<mapsto> so\<lparr>quantity := quantity so - tq\<rparr>)"
  by (simp add: settled_def)

lemma settled_side:
  "side_of bs (settled bo so tq b) =
     side_modify (price (if bs then bo else so))
       (\<lambda>l. l\<lparr>total_quantity := total_quantity l - tq\<rparr>) (side_of bs b)"
  by (simp add: settled_def side_of_def)

lemma settled_stats:
  "total_trades (settled bo so tq b) = total_trades b + 1"
  "total_volume (settled bo so tq b) = total_volume b + tq"
  "trade_log (settled bo so tq b) = trade_log b @
     [\<lparr>trade_quantity = tq, trade_price = min (price bo) (price so),
       buy_id = order_id bo, sell_id = order_id so\<rparr>]"
  by (simp_all add: settled_def)

lemma same_shape_settled:
  assumes "order_lookup b (order_id bo) = Some bo" "order_lookup b (order_id so) = Some so"
  shows "same_shape (settled bo so tq b) b"
  unfolding same_shape_def
proof (intro conjI allI)
  fix bs
  show "map (\<lambda>e. (fst e, fifo (snd e))) (side_of bs (settled bo so tq b)) =
        map (\<lambda>e. (fst e, fifo (snd e))) (side_of bs b)"
    by (simp add: settled_side side_modify_def)
next
  fix k
  show "map_option (\<lambda>ord. (order_id ord, is_buy ord, price ord)) (order_lookup (settled bo so tq b) k) =
        map_option (\<lambda>ord. (order_id ord, is_buy ord, price ord)) (order_lookup b k)"
  proof (cases "k = order_id so")
    case True
    then show ?thesis using assms(2) by (simp add: settled_lookup)
  next
    case False
    note nso = this
    show ?thesis
    proof (cases "k = order_id bo")
      case True
      with nso assms(1) show ?thesis by (simp add: settled_lookup)
    next
      case False
      with nso show ?thesis by (simp add: settled_lookup)
    qed
  qed
qed

lemma opposite_ids:
  assumes x: "order_lookup b (order_id x) = Some x" and y: "order_lookup b (order_id y) = Some y"
    and d: "is_buy x" "\<not> is_buy y"
  shows "order_id x \<noteq> order_id y"
proof
  assume eq: "order_id x = order_id y"
  have "Some x = order_lookup b (order_id x)" by (simp only: x)
  also have "\<dots> = Some y" by (simp only: eq y)
  finally have "x = y" by simp
  with d show False by simp
qed

lemma execute_trade_wf:
  assumes wf: "wf_book b"
    and bo: "order_lookup b (order_id bo) = Some bo" "is_buy bo"
    and so: "order_lookup b (order_id so) = Some so" "\<not> is_buy so"
  shows "wf_book (execute_trade bo so tq b)"
proof -
  let ?b4 = "settled bo so tq b"
  let ?b5 = "if quantity bo = tq then snd (remove_order_from_side (order_id bo) True ?b4) else ?b4"
  have ne: "order_id bo \<noteq> order_id so" by (rule opposite_ids [OF bo(1) so(1) bo(2) so(2)])
  have wf4: "wf_book ?b4" by (rule wf_same_shape [OF wf same_shape_settled [OF bo(1) so(1)]])
  have lb4: "order_lookup ?b4 (order_id bo) = Some (bo\<lparr>quantity := quantity bo - tq\<rparr>)"
    using ne by (simp add: settled_lookup)
  have ls4: "order_lookup ?b4 (order_id so) = Some (so\<lparr>quantity := quantity so - tq\<rparr>)"
    by (simp add: settled_lookup)
  have wf5: "wf_book ?b5"
    using wf_remove_order_from_side [OF wf4 lb4] wf4 bo(2) by simp
  have ls5: "order_lookup ?b5 (order_id so) = Some (so\<lparr>quantity := quantity so - tq\<rparr>)"
  proof (cases "quantity bo = tq")
    case True
    from wf_indexed [OF wf4 lb4] bo(2) obtain l where
      "side_find (price (bo\<lparr>quantity := quantity bo - tq\<rparr>)) (side_of True ?b4) = Some l" by auto
    from remove_order_from_side_lookup [OF lb4 this] ls4 ne True show ?thesis by simp
  next
    case False
    with ls4 show ?thesis by simp
  qed
  have "wf_book (if quantity so = tq
                 then snd (remove_order_from_side (order_id so) False ?b5) else ?b5)"
    using wf_remove_order_from_side [OF wf5 ls5] wf5 so(2) by simp
  then show ?thesis by (simp add: execute_trade_settled Let_def)
qed

lemma execute_trade_dom:
  assumes wf: "wf_book b"
    and bo: "order_lookup b (order_id bo) = Some bo" "is_buy bo"
    and so: "order_lookup b (order_id so) = Some so" "\<not> is_buy so"
  shows "dom (order_lookup (execute_trade bo so tq b)) =
           dom (order_lookup b) - (if quantity bo = tq then {order_id bo} else {})
                                - (if quantity so = tq then {order_id so} else {})"
proof -
  let ?b4 = "settled bo so tq b"
  let ?b5 = "if quantity bo = tq then snd (remove_order_from_side (order_id bo) True ?b4) else ?b4"
  have ne: "order_id bo \<noteq> order_id so" by (rule opposite_ids [OF bo(1) so(1) bo(2) so(2)])
  have wf4: "wf_book ?b4" by (rule wf_same_shape [OF wf same_shape_settled [OF bo(1) so(1)]])
  have lb4: "order_lookup ?b4 (order_id bo) = Some (bo\<lparr>quantity := quantity bo - tq\<rparr>)"
    using ne by (simp add: settled_lookup)
  have ls4: "order_lookup ?b4 (order_id so) = Some (so\<lparr>quantity := quantity so - tq\<rparr>)"
    by (simp add: settled_lookup)
  have d4: "dom (order_lookup ?b4) = dom (order_lookup b)"
    using bo(1) so(1) by (auto simp: settled_lookup)
  from wf_indexed [OF wf4 lb4] bo(2) obtain l where
    l: "side_find (price (bo\<lparr>quantity := quantity bo - tq\<rparr>)) (side_of True ?b4) = Some l" by auto
  have l5: "order_lookup ?b5 = (if quantity bo = tq then (order_lookup ?b4)(order_id bo := None)
                                else order_lookup ?b4)"
    using remove_order_from_side_lookup [OF lb4 l] by simp
  have wf5: "wf_book ?b5"
    using wf_remove_order_from_side [OF wf4 lb4] wf4 bo(2) by simp
  have ls5: "order_lookup ?b5 (order_id so) = Some (so\<lparr>quantity := quantity so - tq\<rparr>)"
    using l5 ls4 ne by simp
  from wf_indexed [OF wf5 ls5] so(2) obtain l' where
    l': "side_find (price (so\<lparr>quantity := quantity so - tq\<rparr>)) (side_of False ?b5) = Some l'" by auto
  have "order_lookup (execute_trade bo so tq b) =
          (if quantity so = tq then (order_lookup ?b5)(order_id so := None) else order_lookup ?b5)"
    using remove_order_from_side_lookup [OF ls5 l'] by (simp add: execute_trade_settled Let_def)
  then show ?thesis using l5 d4 by auto
qed

subsection \<open>One iteration of the matching loop\<close>

lemma process_matching_unfold:
  "process_matching b =
     (case next_iteration b of
        Stop \<Rightarrow> Some b
      | Undefined \<Rightarrow> None
      | Cross bo so \<Rightarrow>
          process_matching (execute_trade bo so (min (quantity bo) (quantity so)) b))"
  by (subst process_matching.simps)
     (simp add: next_iteration_def split: list.split option.split prod.split)

lemma process_matching_Stop: "next_iteration b = Stop \<Longrightarrow> process_matching b = Some b"
  by (subst process_matching_unfold) simp

lemma process_matching_Cross:
  "next_iteration b = Cross bo so \<Longrightarrow>
   process_matching b = process_matching (execute_trade bo so (min (quantity bo) (quantity so)) b)"
  by (subst process_matching_unfold) simp

lemma not_crossed_Stop: "\<not> crossed b \<Longrightarrow> next_iteration b = Stop"
  by (auto simp: crossed_def get_best_bid_def get_best_ask_def next_iteration_def
      split: list.split prod.split)

text \<open>In a well-formed book the loop condition fails exactly when the book is not crossed,
  and otherwise the heads of the two best levels are live orders.\<close>

lemma wf_next_iteration:
  assumes wf: "wf_book b"
  shows "(\<not> crossed b \<and> next_iteration b = Stop) \<or>
         (\<exists>bo so bl rb al ra rfb rfa.
            crossed b \<and> next_iteration b = Cross bo so \<and>
            bids b = (price bo, bl) # rb \<and> asks b = (price so, al) # ra \<and>
            fifo bl = order_id bo # rfb \<and> fifo al = order_id so # rfa \<and>
            order_lookup b (order_id bo) = Some bo \<and> order_lookup b (order_id so) = Some so \<and>
            is_buy bo \<and> \<not> is_buy so \<and> price so \<le> price bo)"
proof (cases "crossed b")
  case False
  then show ?thesis by (simp add: not_crossed_Stop)
next
  case True
  then obtain bb bl rb ba al ra where
    bs: "bids b = (bb, bl) # rb" and as: "asks b = (ba, al) # ra" and le: "\<not> bb < ba"
    by (cases "bids b"; cases "asks b") (auto simp: crossed_def get_best_bid_def get_best_ask_def)
  have fb: "side_find bb (side_of True b) = Some bl" using bs by (simp add: side_of_def side_find_def)
  have fa: "side_find ba (side_of False b) = Some al" using as by (simp add: side_of_def side_find_def)
  from wf_level [OF wf fb] obtain hb rfb where hb: "fifo bl = hb # rfb" by (cases "fifo bl") auto
  from wf_level [OF wf fa] obtain hs rfa where hs: "fifo al = hs # rfa" by (cases "fifo al") auto
  from wf_member [OF wf fb, of hb] hb obtain bo where
    bo: "order_lookup b hb = Some bo" "order_id bo = hb" "is_buy bo" "price bo = bb" by auto
  from wf_member [OF wf fa, of hs] hs obtain so where
    so: "order_lookup b hs = Some so" "order_id so = hs" "\<not> is_buy so" "price so = ba" by auto
  have "next_iteration b = Cross bo so"
    using bs as le hb hs bo(1) so(1) by (simp add: next_iteration_def)
  moreover have "order_lookup b (order_id bo) = Some bo" by (simp only: bo(2) bo(1))
  moreover have "order_lookup b (order_id so) = Some so" by (simp only: so(2) so(1))
  moreover have "bids b = (price bo, bl) # rb" by (simp only: bo(4) bs)
  moreover have "asks b = (price so, al) # ra" by (simp only: so(4) as)
  moreover have "fifo bl = order_id bo # rfb" by (simp only: bo(2) hb)
  moreover have "fifo al = order_id so # rfa" by (simp only: so(2) hs)
  moreover have "price so \<le> price bo" using le bo(4) so(4) by simp
  ultimately show ?thesis using True bo(3) so(3) by blast
qed

lemma wf_Cross:
  assumes wf: "wf_book b" and c: "next_iteration b = Cross bo so"
  shows "order_lookup b (order_id bo) = Some bo \<and> order_lookup b (order_id so) = Some so \<and>
         is_buy bo \<and> \<not> is_buy so \<and> price so \<le> price bo \<and> crossed b"
  using wf_next_iteration [OF wf] c by (elim disjE exE conjE) simp_all

lemma wf_not_Undefined:
  assumes "wf_book b" shows "next_iteration b \<noteq> Undefined"
  using wf_next_iteration [OF assms] by (elim disjE exE conjE) simp_all

lemma wf_Stop:
  assumes "wf_book b" "next_iteration b = Stop" shows "\<not> crossed b"
  using wf_next_iteration [OF assms(1)] assms(2) by (elim disjE exE conjE) simp_all

lemma Cross_decreases:
  assumes wf: "wf_book b" and c: "next_iteration b = Cross bo so"
  shows "card (dom (order_lookup (execute_trade bo so (min (quantity bo) (quantity so)) b)))
           < card (dom (order_lookup b))"
proof -
  from wf_Cross [OF wf c] have
    bo: "order_lookup b (order_id bo) = Some bo" "is_buy bo" and
    so: "order_lookup b (order_id so) = Some so" "\<not> is_buy so" by simp_all
  let ?tq = "min (quantity bo) (quantity so)"
  let ?D = "dom (order_lookup b)"
  have d: "dom (order_lookup (execute_trade bo so ?tq b)) =
           ?D - (if quantity bo = ?tq then {order_id bo} else {})
              - (if quantity so = ?tq then {order_id so} else {})"
    by (rule execute_trade_dom [OF wf bo so])
  have inb: "order_id bo \<in> ?D" and ins: "order_id so \<in> ?D"
    using bo(1) so(1) by (simp_all only: domIff) simp_all
  have "quantity bo = ?tq \<or> quantity so = ?tq" by (simp add: min_def)
  then have "dom (order_lookup (execute_trade bo so ?tq b)) \<subset> ?D"
    unfolding d using inb ins by (auto split: if_splits)
  then show ?thesis by (rule psubset_card_mono [OF wf_finite [OF wf]])
qed

text \<open>Total correctness of the loop: it returns, in a well-formed book that is not
  crossed, and any property that every iteration keeps holds of the result.\<close>

lemma process_matching_rule:
  assumes wf: "wf_book b" and I: "I b"
    and step: "\<And>b bo so. wf_book b \<Longrightarrow> I b \<Longrightarrow> next_iteration b = Cross bo so \<Longrightarrow>
                 I (execute_trade bo so (min (quantity bo) (quantity so)) b)"
  shows "\<exists>b'. process_matching b = Some b' \<and> wf_book b' \<and> I b' \<and> \<not> crossed b'"
  using wf I
proof (induction "card (dom (order_lookup b))" arbitrary: b rule: less_induct)
  case less
  show ?case
  proof (cases "next_iteration b")
    case Stop
    with less.prems wf_Stop [OF less.prems(1)] show ?thesis
      by (simp add: process_matching_Stop)
  next
    case Undefined
    with wf_not_Undefined [OF less.prems(1)] show ?thesis by simp
  next
    case (Cross bo so)
    let ?b1 = "execute_trade bo so (min (quantity bo) (quantity so)) b"
    from wf_Cross [OF less.prems(1) Cross] have
      bo: "order_lookup b (order_id bo) = Some bo" "is_buy bo" and
      so: "order_lookup b (order_id so) = Some so" "\<not> is_buy so" by simp_all
    have wf1: "wf_book ?b1" by (rule execute_trade_wf [OF less.prems(1) bo so])
    have I1: "I ?b1" by (rule step [OF less.prems Cross])
    from less.hyps [OF Cross_decreases [OF less.prems(1) Cross] wf1 I1]
    show ?thesis by (simp add: process_matching_Cross [OF Cross])
  qed
qed

subsection \<open>The public operations\<close>

lemma stamped_fields:
  "order_id (stamped ord now) = order_id ord" "is_buy (stamped ord now) = is_buy ord"
  "price (stamped ord now) = price ord" "quantity (stamped ord now) = quantity ord"
  by (simp_all add: stamped_def)

lemma process_matching_total:
  assumes "wf_book b"
  shows "\<exists>b'. process_matching b = Some b' \<and> wf_book b' \<and> \<not> crossed b'"
  using process_matching_rule [of b "\<lambda>_. True", OF assms] by simp

lemma process_matching_not_crossed: "\<not> crossed b \<Longrightarrow> process_matching b = Some b"
  by (simp add: process_matching_Stop not_crossed_Stop)

lemma add_order_rejected:
  "\<not> accepted ord b \<Longrightarrow> \<exists>e. add_order ord m now b = Some (Thrown e, b)"
  by (auto simp: accepted_def add_order_def)

lemma add_order_placed:
  "accepted ord b \<Longrightarrow>
   add_order ord False now b =
     Some (Returned (), add_order_to_side (stamped ord now) (is_buy ord) b)"
  by (simp add: accepted_def add_order_def stamped_def Let_def)

lemma add_order_matched:
  "accepted ord b \<Longrightarrow>
   add_order ord True now b =
     map_option (Pair (Returned ()))
       (process_matching (add_order_to_side (stamped ord now) (is_buy ord) b))"
  by (simp add: accepted_def add_order_def stamped_def Let_def)

lemma wf_placed:
  assumes "wf_book b" "accepted ord b"
  shows "wf_book (add_order_to_side (stamped ord now) (is_buy ord) b)"
proof -
  have "order_lookup b (order_id (stamped ord now)) = None"
    using assms(2) by (simp add: accepted_def stamped_fields)
  from wf_add_order_to_side [OF assms(1) this] show ?thesis by (simp add: stamped_fields)
qed

lemma add_order_total:
  assumes wf: "wf_book b"
  shows "\<exists>r b'. add_order ord m now b = Some (r, b') \<and> wf_book b' \<and>
           (m \<and> r = Returned () \<longrightarrow> \<not> crossed b')"
proof (cases "accepted ord b")
  case False
  from add_order_rejected [OF this, of m now] wf show ?thesis by auto
next
  case True
  show ?thesis
  proof (cases m)
    case False
    with add_order_placed [OF True, of now] wf_placed [OF wf True, of now] show ?thesis by simp
  next
    case m: True
    from process_matching_total [OF wf_placed [OF wf True, of now]] obtain b' where
      "process_matching (add_order_to_side (stamped ord now) (is_buy ord) b) = Some b'"
      "wf_book b'" "\<not> crossed b'" by blast
    with add_order_matched [OF True, of now] m show ?thesis by simp
  qed
qed

lemma cancel_order_absent: "order_lookup b k = None \<Longrightarrow> cancel_order k b = (False, b)"
  by (simp add: cancel_order_def)

lemma cancel_order_present:
  "order_lookup b k = Some node \<Longrightarrow> cancel_order k b = remove_order_from_side k (is_buy node) b"
  by (simp add: cancel_order_def)

lemma wf_cancel_order:
  assumes "wf_book b" shows "wf_book (snd (cancel_order k b))"
proof (cases "order_lookup b k")
  case None
  with assms show ?thesis by (simp add: cancel_order_absent)
next
  case (Some node)
  with wf_remove_order_from_side [OF assms Some] show ?thesis by (simp add: cancel_order_present)
qed

lemma cancel_order_succeeds:
  assumes wf: "wf_book b" and lk: "order_lookup b k = Some node"
  shows "fst (cancel_order k b) = True \<and> order_lookup (snd (cancel_order k b)) = (order_lookup b)(k := None)"
proof -
  from wf_indexed [OF wf lk] obtain l where
    l: "side_find (price node) (side_of (is_buy node) b) = Some l" by blast
  show ?thesis
    using remove_order_from_side_fst [OF lk l] remove_order_from_side_lookup [OF lk l]
    by (simp add: cancel_order_present [OF lk])
qed

lemma wf_order_id:
  assumes "wf_book b" "order_lookup b k = Some ord" shows "order_id ord = k"
proof -
  from wf_indexed [OF assms] obtain l where
    "side_find (price ord) (side_of (is_buy ord) b) = Some l" "k \<in> set (fifo l)" by blast
  from wf_member [OF assms(1) this] assms(2) show ?thesis by auto
qed

lemma amend_order_absent:
  "order_lookup b k = None \<Longrightarrow> amend_order k np nq m now b = Some (Returned False, b)"
  by (simp add: amend_order_def)

lemma amend_order_zero:
  "order_lookup b k = Some ord \<Longrightarrow> nq = 0 \<Longrightarrow>
   amend_order k np nq m now b = Some (Thrown InvalidQuantity, b)"
  by (simp add: amend_order_def)

lemma amend_order_bad_price:
  "order_lookup b k = Some ord \<Longrightarrow> nq \<noteq> 0 \<Longrightarrow> np \<le> 0 \<Longrightarrow>
   amend_order k np nq m now b = Some (Thrown (InvalidPrice np), b)"
  by (simp add: amend_order_def)

lemma amend_order_inplace:
  "order_lookup b k = Some ord \<Longrightarrow> nq \<noteq> 0 \<Longrightarrow> 0 < np \<Longrightarrow> \<not> price_changed ord np \<Longrightarrow>
   amend_order k np nq m now b =
     (if m then map_option (Pair (Returned True)) (process_matching (resized k ord nq b))
      else Some (Returned True, resized k ord nq b))"
  by (simp add: amend_order_def price_changed_def resized_def Let_def lookup_set_side)

lemma amend_order_reprice_raw:
  "order_lookup b k = Some ord \<Longrightarrow> nq \<noteq> 0 \<Longrightarrow> 0 < np \<Longrightarrow> price_changed ord np \<Longrightarrow>
   amend_order k np nq m now b =
     (case cancel_order k b of
        (False, b1) \<Rightarrow> Some (Returned False, b1)
      | (True, b1) \<Rightarrow>
          (case add_order (ord\<lparr>price := np, quantity := nq\<rparr>) m now b1 of
             None \<Rightarrow> None
           | Some (Thrown e, b2) \<Rightarrow> Some (Thrown e, b2)
           | Some (Returned u, b2) \<Rightarrow>
               if m then map_option (Pair (Returned True)) (process_matching b2)
               else Some (Returned True, b2)))"
  by (simp add: amend_order_def price_changed_def Let_def)

lemma same_shape_resized:
  assumes "order_lookup b k = Some ord" "order_id ord = k"
  shows "same_shape (resized k ord nq b) b"
  unfolding same_shape_def
proof (intro conjI allI)
  fix bs
  show "map (\<lambda>e. (fst e, fifo (snd e))) (side_of bs (resized k ord nq b)) =
        map (\<lambda>e. (fst e, fifo (snd e))) (side_of bs b)"
    by (simp add: resized_def side_of_lookup_update side_of_set_side side_modify_def)
next
  fix j
  show "map_option (\<lambda>ord. (order_id ord, is_buy ord, price ord)) (order_lookup (resized k ord nq b) j) =
        map_option (\<lambda>ord. (order_id ord, is_buy ord, price ord)) (order_lookup b j)"
  proof (cases "j = k")
    case True
    then show ?thesis using assms by (simp add: resized_def)
  next
    case False
    then show ?thesis by (simp add: resized_def lookup_set_side)
  qed
qed

lemma keys_resized: "map fst (side_of bs (resized k ord nq b)) = map fst (side_of bs b)"
  by (simp add: resized_def side_of_lookup_update side_of_set_side keys_side_modify)

lemma crossed_keys:
  assumes "\<And>bs. map fst (side_of bs b') = map fst (side_of bs b)"
  shows "crossed b' = crossed b"
proof -
  have "map fst (bids b') = map fst (bids b)" "map fst (asks b') = map fst (asks b)"
    using assms [of True] assms [of False] by (simp_all add: side_of_def)
  then show ?thesis
    by (cases "bids b"; cases "bids b'"; cases "asks b"; cases "asks b'")
       (simp_all add: crossed_def get_best_bid_def get_best_ask_def)
qed

lemma amend_order_reprice:
  assumes wf: "wf_book b" and lk: "order_lookup b k = Some ord"
    and ok: "nq \<noteq> 0" "0 < np" and ch: "price_changed ord np"
  shows "fst (cancel_order k b) = True"
    and "accepted (ord\<lparr>price := np, quantity := nq\<rparr>) (snd (cancel_order k b))"
    and "amend_order k np nq m now b =
           map_option (Pair (Returned True) \<circ> snd)
             (add_order (ord\<lparr>price := np, quantity := nq\<rparr>) m now (snd (cancel_order k b)))"
proof -
  let ?new = "ord\<lparr>price := np, quantity := nq\<rparr>"
  let ?b1 = "snd (cancel_order k b)"
  note cs = cancel_order_succeeds [OF wf lk]
  show c: "fst (cancel_order k b) = True" using cs by simp
  have id: "order_id ?new = k" using wf_order_id [OF wf lk] by simp
  show acc: "accepted ?new ?b1"
    unfolding accepted_def id using cs ok by simp
  have wf1: "wf_book ?b1" by (rule wf_cancel_order [OF wf])
  obtain b1 where ceq: "cancel_order k b = (True, b1)"
    using c by (cases "cancel_order k b") auto
  have s: "snd (cancel_order k b) = b1" by (simp add: ceq)
  have acc1: "accepted ?new b1" using acc by (simp only: s)
  have wf1': "wf_book b1" using wf1 by (simp only: s)
  have "amend_order k np nq m now b =
           map_option (Pair (Returned True) \<circ> snd) (add_order ?new m now b1)"
  proof (cases m)
    case False
    show ?thesis
      unfolding amend_order_reprice_raw [OF lk ok ch] ceq
      using False add_order_placed [OF acc1, of now] by simp
  next
    case True
    from process_matching_total [OF wf_placed [OF wf1' acc1, of now]] obtain b2 where
      b2: "process_matching (add_order_to_side (stamped ?new now) (is_buy ?new) b1) = Some b2"
      "\<not> crossed b2" by blast
    have "add_order ?new True now b1 = Some (Returned (), b2)"
      using add_order_matched [OF acc1, of now] b2(1) by simp
    then show ?thesis
      unfolding amend_order_reprice_raw [OF lk ok ch] ceq
      using True process_matching_not_crossed [OF b2(2)] by simp
  qed
  then show "amend_order k np nq m now b =
           map_option (Pair (Returned True) \<circ> snd) (add_order ?new m now ?b1)"
    by (simp only: s)
qed

lemma amend_order_total:
  assumes wf: "wf_book b"
  shows "\<exists>r b'. amend_order k np nq m now b = Some (r, b') \<and> wf_book b' \<and>
           (m \<and> r = Returned True \<longrightarrow> \<not> crossed b')"
proof (cases "order_lookup b k")
  case None
  with wf show ?thesis by (simp add: amend_order_absent)
next
  case (Some ord)
  note lk = this
  consider "nq = 0" | "nq \<noteq> 0" "np \<le> 0" | "nq \<noteq> 0" "0 < np" "price_changed ord np"
    | "nq \<noteq> 0" "0 < np" "\<not> price_changed ord np"
    by fastforce
  then show ?thesis
  proof cases
    case 1
    with wf lk show ?thesis by (simp add: amend_order_zero)
  next
    case 2
    with wf lk show ?thesis by (simp add: amend_order_bad_price)
  next
    case 3
    let ?new = "ord\<lparr>price := np, quantity := nq\<rparr>"
    from add_order_total [OF wf_cancel_order [OF wf, of k], of ?new m now] obtain r b' where
      a: "add_order ?new m now (snd (cancel_order k b)) = Some (r, b')" "wf_book b'"
         "m \<and> r = Returned () \<longrightarrow> \<not> crossed b'" by blast
    have "r = Returned ()"
    proof (cases m)
      case True
      with a(1) add_order_matched [OF amend_order_reprice(2) [OF wf lk 3], of now]
      show ?thesis by auto
    next
      case False
      with a(1) add_order_placed [OF amend_order_reprice(2) [OF wf lk 3], of now]
      show ?thesis by auto
    qed
    with a show ?thesis by (simp add: amend_order_reprice(3) [OF wf lk 3])
  next
    case 4
    have wf2: "wf_book (resized k ord nq b)"
      by (rule wf_same_shape [OF wf same_shape_resized [OF lk wf_order_id [OF wf lk]]])
    show ?thesis
    proof (cases m)
      case False
      with wf2 show ?thesis by (simp add: amend_order_inplace [OF lk 4])
    next
      case True
      from process_matching_total [OF wf2] obtain b' where
        "process_matching (resized k ord nq b) = Some b'" "wf_book b'" "\<not> crossed b'" by blast
      with True show ?thesis by (simp add: amend_order_inplace [OF lk 4])
    qed
  qed
qed

lemma reachable_wf: "reachable b \<Longrightarrow> wf_book b"
proof (induction rule: reachable.induct)
  case initial
  show ?case by (rule wf_empty_book)
next
  case (after_add b ord m now r b')
  from add_order_total [OF after_add.IH, of ord m now] after_add.hyps(2) show ?case by auto
next
  case (after_cancel b k r b')
  from wf_cancel_order [OF after_cancel.IH, of k] after_cancel.hyps(2) show ?case by simp
next
  case (after_amend b k p q m now r b')
  from amend_order_total [OF after_amend.IH, of k p q m now] after_amend.hyps(2) show ?case by auto
next
  case (after_match b b')
  from process_matching_total [OF after_match.IH] after_match.hyps(2) show ?case
    by (auto simp: match_orders_def)
qed

lemma add_order_accepted_Returned:
  assumes "wf_book b" "accepted ord b"
  shows "\<exists>b'. add_order ord m now b = Some (Returned (), b')"
proof (cases m)
  case False
  with add_order_placed [OF assms(2), of now] show ?thesis by simp
next
  case True
  from process_matching_total [OF wf_placed [OF assms, of now]] obtain b' where
    "process_matching (add_order_to_side (stamped ord now) (is_buy ord) b) = Some b'" by blast
  with add_order_matched [OF assms(2), of now] True show ?thesis by simp
qed

lemma add_order_Thrown_unchanged:
  assumes "wf_book b" "add_order ord m now b = Some (Thrown e, b')"
  shows "b' = b"
proof (cases "accepted ord b")
  case True
  from add_order_accepted_Returned [OF assms(1) True, of m now] assms(2) show ?thesis by auto
next
  case False
  from add_order_rejected [OF False, of m now] assms(2) show ?thesis by auto
qed

lemma amend_order_outcomes:
  assumes wf: "wf_book b"
  shows "amend_order k np nq m now b = Some (Returned False, b) \<or>
         (\<exists>e. amend_order k np nq m now b = Some (Thrown e, b)) \<or>
         (\<exists>b'. amend_order k np nq m now b = Some (Returned True, b'))"
proof (cases "order_lookup b k")
  case None
  then show ?thesis by (simp add: amend_order_absent)
next
  case (Some ord)
  note lk = this
  consider "nq = 0" | "nq \<noteq> 0" "np \<le> 0" | "nq \<noteq> 0" "0 < np" "price_changed ord np"
    | "nq \<noteq> 0" "0 < np" "\<not> price_changed ord np"
    by fastforce
  then show ?thesis
  proof cases
    case 1
    with lk show ?thesis by (simp add: amend_order_zero)
  next
    case 2
    with lk show ?thesis by (simp add: amend_order_bad_price)
  next
    case 3
    from add_order_accepted_Returned [OF wf_cancel_order [OF wf] amend_order_reprice(2) [OF wf lk 3]]
    obtain b' where "add_order (ord\<lparr>price := np, quantity := nq\<rparr>) m now (snd (cancel_order k b)) =
      Some (Returned (), b')" by blast
    then show ?thesis by (simp add: amend_order_reprice(3) [OF wf lk 3])
  next
    case 4
    from amend_order_total [OF wf, of k np nq m now] obtain r b' where
      r: "amend_order k np nq m now b = Some (r, b')" by blast
    then have "r = Returned True"
      unfolding amend_order_inplace [OF lk 4] by (auto split: if_splits)
    with r show ?thesis by simp
  qed
qed

lemma cancel_order_False_unchanged:
  assumes "wf_book b" "cancel_order k b = (False, b')" shows "b' = b"
proof (cases "order_lookup b k")
  case None
  with assms(2) show ?thesis by (simp add: cancel_order_absent)
next
  case (Some node)
  from cancel_order_succeeds [OF assms(1) Some] assms(2) show ?thesis by simp
qed

subsection \<open>Books of the examples\<close>

lemma reachable_placed:
  assumes "reachable b" "accepted ord b"
  shows "reachable (add_order_to_side (stamped ord now) (is_buy ord) b)"
  by (rule reachable.after_add [OF assms(1) add_order_placed [OF assms(2)]])

lemma stamped_nonzero: "timestamp_ns ord \<noteq> 0 \<Longrightarrow> stamped ord now = ord"
  by (simp add: stamped_def)

lemma reachable_book_1: "reachable (add_order_to_side buy_1 True empty_book)"
proof -
  have "accepted buy_1 empty_book" by (simp add: accepted_def buy_1_def empty_book_def)
  from reachable_placed [OF reachable.initial this, of 0] show ?thesis
    by (simp add: stamped_def buy_1_def)
qed

lemma book_1_eval:
  "order_lookup (add_order_to_side buy_1 True empty_book) = [1 \<mapsto> buy_1]"
  "bids (add_order_to_side buy_1 True empty_book) = [(100, \<lparr>total_quantity = 100, fifo = [1]\<rparr>)]"
  "asks (add_order_to_side buy_1 True empty_book) = []"
  by (simp_all add: add_order_to_side_def Let_def buy_1_def empty_book_def side_of_def
      set_side_def side_modify_def new_level_def)

lemma buy_1_fields:
  "order_id buy_1 = 1" "is_buy buy_1" "price buy_1 = 100" "quantity buy_1 = 100"
  "timestamp_ns buy_1 = 1"
  by (simp_all add: buy_1_def)

subsection \<open>The index and the chains\<close>

lemma in_resting_ids:
  "k \<in> set (resting_ids b) \<longleftrightarrow> (\<exists>bs p l. (p, l) \<in> set (side_of bs b) \<and> k \<in> set (fifo l))"
proof
  assume "k \<in> set (resting_ids b)"
  then obtain e where "e \<in> set (bids b) \<or> e \<in> set (asks b)" "k \<in> set (fifo (snd e))"
    by (auto simp: resting_ids_def)
  then have "(fst e, snd e) \<in> set (side_of True b) \<or> (fst e, snd e) \<in> set (side_of False b)"
    by (simp add: side_of_def)
  with \<open>k \<in> set (fifo (snd e))\<close> show "\<exists>bs p l. (p, l) \<in> set (side_of bs b) \<and> k \<in> set (fifo l)"
    by blast
next
  assume "\<exists>bs p l. (p, l) \<in> set (side_of bs b) \<and> k \<in> set (fifo l)"
  then obtain bs p l where "(p, l) \<in> set (side_of bs b)" "k \<in> set (fifo l)" by blast
  then show "k \<in> set (resting_ids b)"
    by (cases bs) (force simp: resting_ids_def side_of_def)+
qed

lemma wf_resting_ids:
  assumes wf: "wf_book b"
  shows "k \<in> set (resting_ids b) \<longleftrightarrow> order_lookup b k \<noteq> None"
proof
  assume "k \<in> set (resting_ids b)"
  then obtain bs p l where e: "(p, l) \<in> set (side_of bs b)" "k \<in> set (fifo l)"
    unfolding in_resting_ids by blast
  from wf_member [OF wf in_set_find [OF wf_sorted [OF wf] e(1)] e(2)]
  show "order_lookup b k \<noteq> None" by auto
next
  assume "order_lookup b k \<noteq> None"
  then obtain ord where "order_lookup b k = Some ord" by auto
  from wf_indexed [OF wf this] obtain l where
    "side_find (price ord) (side_of (is_buy ord) b) = Some l" "k \<in> set (fifo l)" by blast
  with find_in_set show "k \<in> set (resting_ids b)" unfolding in_resting_ids by blast
qed

subsection \<open>Cancelling in a book that is not crossed\<close>

lemma sorted_head_erase:
  assumes "side_sorted bs s" "side_erase p s \<noteq> []"
  shows "s \<noteq> [] \<and> (fst (hd (side_erase p s)) = fst (hd s) \<or>
                    comparator bs (fst (hd s)) (fst (hd (side_erase p s))))"
proof (cases s)
  case Nil
  with assms(2) show ?thesis by (simp add: side_erase_def)
next
  case (Cons e rest)
  have "hd (side_erase p s) \<in> set (side_erase p s)" using assms(2) by simp
  then have "hd (side_erase p s) \<in> set s" by (simp add: side_erase_def)
  then have "hd (side_erase p s) = e \<or> hd (side_erase p s) \<in> set rest" using Cons by auto
  moreover have "comparator bs (fst e) (fst x)" if "x \<in> set rest" for x
    using assms(1) Cons that by (simp add: side_sorted_def)
  ultimately have "hd (side_erase p s) = e \<or> comparator bs (fst e) (fst (hd (side_erase p s)))"
    by blast
  then show ?thesis using Cons by auto
qed

lemma cancel_order_sides:
  assumes wf: "wf_book b"
  shows "side_of bs (snd (cancel_order k b)) = side_of bs b \<or>
         map fst (side_of bs (snd (cancel_order k b))) = map fst (side_of bs b) \<or>
         (\<exists>p. side_of bs (snd (cancel_order k b)) = side_erase p (side_of bs b))"
proof (cases "order_lookup b k")
  case None
  then show ?thesis by (simp add: cancel_order_absent)
next
  case (Some node)
  show ?thesis
  proof (cases "bs = is_buy node")
    case False
    then show ?thesis
      by (simp add: cancel_order_present [OF Some] remove_order_from_side_other)
  next
    case True
    show ?thesis
    proof (cases "side_find (price node) (side_of (is_buy node) b)")
      case None
      then show ?thesis
        by (simp add: cancel_order_present [OF Some] remove_order_from_side_no_level [OF Some])
    next
      case (Some l)
      show ?thesis
      proof (cases "remove1 k (fifo l) = []")
        case True
        have "side_of bs (snd (cancel_order k b)) = side_erase (price node) (side_of bs b)"
          using \<open>order_lookup b k = Some node\<close> Some True \<open>bs = is_buy node\<close>
          by (simp add: cancel_order_def remove_order_from_side_def Let_def
              side_of_set_side side_of_lookup_update)
        then show ?thesis by blast
      next
        case False
        have "map fst (side_of bs (snd (cancel_order k b))) = map fst (side_of bs b)"
          using \<open>order_lookup b k = Some node\<close> Some False \<open>bs = is_buy node\<close>
          by (simp add: cancel_order_def remove_order_from_side_def Let_def
              side_of_set_side side_of_lookup_update keys_side_modify)
        then show ?thesis by blast
      qed
    qed
  qed
qed

lemma crossed_best:
  "crossed b \<longleftrightarrow> side_of True b \<noteq> [] \<and> side_of False b \<noteq> [] \<and> \<not> best True b < best False b"
  by (cases "bids b"; cases "asks b")
     (simp_all add: crossed_def best_def side_of_def get_best_bid_def get_best_ask_def)

lemma cancel_order_best:
  assumes wf: "wf_book b" and ne: "side_of bs (snd (cancel_order k b)) \<noteq> []"
  shows "side_of bs b \<noteq> [] \<and>
         (best bs (snd (cancel_order k b)) = best bs b \<or>
          comparator bs (best bs b) (best bs (snd (cancel_order k b))))"
proof -
  let ?b' = "snd (cancel_order k b)"
  from cancel_order_sides [OF wf, of bs k]
  consider "side_of bs ?b' = side_of bs b" | "map fst (side_of bs ?b') = map fst (side_of bs b)"
    | p where "side_of bs ?b' = side_erase p (side_of bs b)" by blast
  then show ?thesis
  proof cases
    case 1
    with ne show ?thesis by (simp add: best_def)
  next
    case 2
    with ne show ?thesis
      by (cases "side_of bs ?b'"; cases "side_of bs b") (simp_all add: best_def)
  next
    case 3
    with sorted_head_erase [OF wf_sorted [OF wf, of bs], of p] ne show ?thesis
      by (simp add: best_def)
  qed
qed

lemma cancel_order_not_crossed:
  assumes wf: "wf_book b" and nc: "\<not> crossed b"
  shows "\<not> crossed (snd (cancel_order k b))"
proof
  let ?b' = "snd (cancel_order k b)"
  assume c: "crossed ?b'"
  then have ne: "side_of True ?b' \<noteq> []" "side_of False ?b' \<noteq> []"
    and le: "\<not> best True ?b' < best False ?b'" by (simp_all add: crossed_best)
  from cancel_order_best [OF wf ne(1)] have
    t: "side_of True b \<noteq> []" "best True ?b' \<le> best True b"
    by (auto simp: comparator_def)
  from cancel_order_best [OF wf ne(2)] have
    f: "side_of False b \<noteq> []" "best False b \<le> best False ?b'"
    by (auto simp: comparator_def)
  from nc t(1) f(1) have "best True b < best False b" by (simp add: crossed_best)
  with t(2) f(2) le show False by simp
qed

lemma reachable_book_12: "reachable (add_order_to_side sell_2 False (add_order_to_side buy_1 True empty_book))"
proof -
  have "accepted sell_2 (add_order_to_side buy_1 True empty_book)"
    by (simp add: accepted_def sell_2_def book_1_eval)
  from reachable_placed [OF reachable_book_1 this, of 0] show ?thesis
    by (simp add: stamped_def sell_2_def)
qed

subsection \<open>Amending in place\<close>

lemma resized_fields:
  "order_lookup (resized k ord nq b) = (order_lookup b)(k \<mapsto> ord\<lparr>quantity := nq\<rparr>)"
  "side_of (is_buy ord) (resized k ord nq b) =
     side_modify (price ord)
       (\<lambda>x. x\<lparr>total_quantity := total_quantity x + (nq - quantity ord)\<rparr>)
       (side_of (is_buy ord) b)"
  "side_of (\<not> is_buy ord) (resized k ord nq b) = side_of (\<not> is_buy ord) b"
  "total_trades (resized k ord nq b) = total_trades b"
  "total_volume (resized k ord nq b) = total_volume b"
  "trade_log (resized k ord nq b) = trade_log b"
  by (simp_all add: resized_def lookup_set_side side_of_lookup_update side_of_set_side
      stats_set_side)

lemma crossed_resized: "crossed (resized k ord nq b) = crossed b"
  by (rule crossed_keys) (rule keys_resized)

lemma reachable_book_1_2:
  "reachable (add_order_to_side buy_2 True (add_order_to_side buy_1 True empty_book))"
proof -
  have "accepted buy_2 (add_order_to_side buy_1 True empty_book)"
    by (simp add: accepted_def buy_2_def book_1_eval)
  from reachable_placed [OF reachable_book_1 this, of 0] show ?thesis
    by (simp add: stamped_def buy_2_def)
qed

lemma book_1_2_eval:
  "order_lookup (add_order_to_side buy_2 True (add_order_to_side buy_1 True empty_book)) =
     [1 \<mapsto> buy_1, 2 \<mapsto> buy_2]"
  "bids (add_order_to_side buy_2 True (add_order_to_side buy_1 True empty_book)) =
     [(100, \<lparr>total_quantity = 300, fifo = [1, 2]\<rparr>)]"
  "asks (add_order_to_side buy_2 True (add_order_to_side buy_1 True empty_book)) = []"
  by (simp_all add: add_order_to_side_def [of buy_2] Let_def book_1_eval side_of_def
      set_side_def side_modify_def new_level_def comparator_def)
     (simp_all add: buy_2_def)

lemma placed_tail:
  assumes "side_sorted bs (side_of bs b)"
  shows "\<exists>l. side_find (price ord) (side_of bs (add_order_to_side ord bs b)) = Some l \<and>
             fifo l \<noteq> [] \<and> last (fifo l) = order_id ord \<and>
             fifo l = (case side_find (price ord) (side_of bs b) of
                         None \<Rightarrow> [] | Some l0 \<Rightarrow> fifo l0) @ [order_id ord]"
  by (simp add: add_order_to_side_find [OF assms] placed_def Let_def new_level_def
      split: option.split)

subsection \<open>The effect of a trade\<close>

lemma execute_trade_stats:
  "total_trades (execute_trade bo so tq b) = total_trades b + 1"
  "total_volume (execute_trade bo so tq b) = total_volume b + tq"
  "trade_log (execute_trade bo so tq b) = trade_log b @
     [\<lparr>trade_quantity = tq, trade_price = min (price bo) (price so),
       buy_id = order_id bo, sell_id = order_id so\<rparr>]"
  by (simp_all add: execute_trade_settled Let_def remove_order_from_side_stats settled_stats)

lemma unlinked_zero:
  "quantity node = 0 \<Longrightarrow>
   unlinked k node (l\<lparr>total_quantity := t\<rparr>) =
     (if remove1 k (fifo l) = [] then None
      else Some \<lparr>total_quantity = t, fifo = remove1 k (fifo l)\<rparr>)"
  by (simp add: unlinked_def)

lemma execute_trade_effect:
  assumes wf: "wf_book b"
    and bo: "order_lookup b (order_id bo) = Some bo" "is_buy bo"
    and so: "order_lookup b (order_id so) = Some so" "\<not> is_buy so"
  shows "order_lookup (execute_trade bo so tq b) =
           (order_lookup b)
             (order_id bo := (if quantity bo = tq then None
                              else Some (bo\<lparr>quantity := quantity bo - tq\<rparr>)),
              order_id so := (if quantity so = tq then None
                              else Some (so\<lparr>quantity := quantity so - tq\<rparr>)))"
    and "side_find q (side_of True (execute_trade bo so tq b)) =
           (if q = price bo
            then Option.bind (side_find q (side_of True b))
                   (filled (order_id bo) tq (quantity bo = tq))
            else side_find q (side_of True b))"
    and "side_find q (side_of False (execute_trade bo so tq b)) =
           (if q = price so
            then Option.bind (side_find q (side_of False b))
                   (filled (order_id so) tq (quantity so = tq))
            else side_find q (side_of False b))"
proof -
  let ?b4 = "settled bo so tq b"
  let ?bo' = "bo\<lparr>quantity := quantity bo - tq\<rparr>"
  let ?so' = "so\<lparr>quantity := quantity so - tq\<rparr>"
  define b5 where "b5 = (if quantity bo = tq
                         then snd (remove_order_from_side (order_id bo) True ?b4) else ?b4)"
  have ex: "execute_trade bo so tq b =
              (if quantity so = tq then snd (remove_order_from_side (order_id so) False b5) else b5)"
    by (simp add: execute_trade_settled Let_def b5_def)
  have ne: "order_id bo \<noteq> order_id so" by (rule opposite_ids [OF bo(1) so(1) bo(2) so(2)])
  have wf4: "wf_book ?b4" by (rule wf_same_shape [OF wf same_shape_settled [OF bo(1) so(1)]])
  have lb4: "order_lookup ?b4 (order_id bo) = Some ?bo'"
    using ne by (simp add: settled_lookup)
  have ls4: "order_lookup ?b4 (order_id so) = Some ?so'"
    by (simp add: settled_lookup)
  from wf_indexed [OF wf4 lb4] bo(2) obtain lb where
    lb: "side_find (price ?bo') (side_of True ?b4) = Some lb" by auto
  have f4: "side_find q (side_of bs ?b4) =
              (if q = price (if bs then bo else so)
               then map_option (\<lambda>l. l\<lparr>total_quantity := total_quantity l - tq\<rparr>)
                      (side_find q (side_of bs b))
               else side_find q (side_of bs b))" for bs q
    by (simp add: settled_side find_side_modify)
  have l5: "order_lookup b5 = (order_lookup ?b4)(order_id bo := (if quantity bo = tq then None
                                                                   else Some ?bo'))"
    using remove_order_from_side_lookup [OF lb4 lb] lb4 by (auto simp: b5_def)
  have wf5: "wf_book b5"
    using wf_remove_order_from_side [OF wf4 lb4] wf4 bo(2) by (simp add: b5_def)
  have ls5: "order_lookup b5 (order_id so) = Some ?so'"
    using ls4 ne by (simp add: l5)
  from wf_indexed [OF wf5 ls5] so(2) obtain ls where
    ls: "side_find (price ?so') (side_of False b5) = Some ls" by auto
  have l6: "order_lookup (execute_trade bo so tq b) =
              (order_lookup b5)(order_id so := (if quantity so = tq then None else Some ?so'))"
    using remove_order_from_side_lookup [OF ls5 ls] ls5 by (auto simp: ex)
  show "order_lookup (execute_trade bo so tq b) =
           (order_lookup b)
             (order_id bo := (if quantity bo = tq then None else Some ?bo'),
              order_id so := (if quantity so = tq then None else Some ?so'))"
    unfolding l6 l5 settled_lookup using ne by (auto simp: fun_eq_iff)
  have f5T: "side_find q (side_of True b5) =
               (if q = price bo
                then Option.bind (side_find q (side_of True b))
                       (filled (order_id bo) tq (quantity bo = tq))
                else side_find q (side_of True b))" for q
  proof (cases "quantity bo = tq")
    case False
    then show ?thesis
      by (cases "side_find q (side_of True b)") (auto simp: b5_def f4 filled_def)
  next
    case True
    from lb have "map_option (\<lambda>l. l\<lparr>total_quantity := total_quantity l - tq\<rparr>)
                    (side_find (price bo) (side_of True b)) = Some lb"
      by (simp add: f4)
    then obtain l0 where l0: "side_find (price bo) (side_of True b) = Some l0"
      "lb = l0\<lparr>total_quantity := total_quantity l0 - tq\<rparr>" by auto
    show ?thesis
      using True remove_order_from_side_find [OF lb4 lb, of q True] l0
      by (auto simp: b5_def f4 filled_def unlinked_zero)
  qed
  have f5F: "side_find q (side_of False b5) = side_find q (side_of False ?b4)" for q
    by (simp add: b5_def remove_order_from_side_other)
  show "side_find q (side_of True (execute_trade bo so tq b)) =
           (if q = price bo
            then Option.bind (side_find q (side_of True b))
                   (filled (order_id bo) tq (quantity bo = tq))
            else side_find q (side_of True b))"
    by (simp add: ex remove_order_from_side_other f5T)
  show "side_find q (side_of False (execute_trade bo so tq b)) =
           (if q = price so
            then Option.bind (side_find q (side_of False b))
                   (filled (order_id so) tq (quantity so = tq))
            else side_find q (side_of False b))"
  proof (cases "quantity so = tq")
    case False
    then show ?thesis
      by (cases "side_find q (side_of False b)") (auto simp: ex f5F f4 filled_def)
  next
    case True
    from ls have "map_option (\<lambda>l. l\<lparr>total_quantity := total_quantity l - tq\<rparr>)
                    (side_find (price so) (side_of False b)) = Some ls"
      by (simp add: f5F f4)
    then obtain l0 where l0: "side_find (price so) (side_of False b) = Some l0"
      "ls = l0\<lparr>total_quantity := total_quantity l0 - tq\<rparr>" by auto
    show ?thesis
      using True remove_order_from_side_find [OF ls5 ls, of q False] l0
      by (auto simp: ex f5F f4 filled_def unlinked_zero)
  qed
qed

subsection \<open>Matching after an insert or an amend\<close>

lemma add_order_split:
  assumes wf: "wf_book b"
  shows "\<exists>r b1. add_order ord False now b = Some (r, b1) \<and> wf_book b1 \<and>
           trade_log b1 = trade_log b \<and>
           add_order ord True now b =
             (if r = Returned () then map_option (Pair r) (process_matching b1)
              else Some (r, b1))"
proof (cases "accepted ord b")
  case True
  show ?thesis
    using add_order_placed [OF True, of now] add_order_matched [OF True, of now]
      wf_placed [OF wf True, of now]
    by (simp add: add_order_to_side_stats)
next
  case False
  then show ?thesis using wf by (auto simp: accepted_def add_order_def)
qed

lemma amend_order_split:
  assumes wf: "wf_book b"
  shows "\<exists>r b1. amend_order k np nq False now b = Some (r, b1) \<and> wf_book b1 \<and>
           trade_log b1 = trade_log b \<and>
           amend_order k np nq True now b =
             (if r = Returned True then map_option (Pair r) (process_matching b1)
              else Some (r, b1))"
proof (cases "order_lookup b k")
  case None
  with wf show ?thesis by (simp add: amend_order_absent)
next
  case (Some ord)
  note lk = this
  consider "nq = 0" | "nq \<noteq> 0" "np \<le> 0" | "nq \<noteq> 0" "0 < np" "price_changed ord np"
    | "nq \<noteq> 0" "0 < np" "\<not> price_changed ord np"
    by fastforce
  then show ?thesis
  proof cases
    case 1
    with wf lk show ?thesis by (simp add: amend_order_zero)
  next
    case 2
    with wf lk show ?thesis by (simp add: amend_order_bad_price)
  next
    case 3
    let ?new = "ord\<lparr>price := np, quantity := nq\<rparr>"
    let ?b0 = "snd (cancel_order k b)"
    note rp = amend_order_reprice [OF wf lk 3]
    have wf0: "wf_book ?b0" by (rule wf_cancel_order [OF wf])
    have t0: "trade_log ?b0 = trade_log b"
      by (simp add: cancel_order_present [OF lk] remove_order_from_side_stats)
    show ?thesis
      using add_order_placed [OF rp(2), of now] add_order_matched [OF rp(2), of now]
        wf_placed [OF wf0 rp(2), of now] t0
      by (simp add: rp(3) add_order_to_side_stats option.map_comp comp_def)
  next
    case 4
    have wf2: "wf_book (resized k ord nq b)"
      by (rule wf_same_shape [OF wf same_shape_resized [OF lk wf_order_id [OF wf lk]]])
    then show ?thesis by (simp add: amend_order_inplace [OF lk 4] resized_fields)
  qed
qed

lemma process_matching_trades:
  assumes wf: "wf_book b"
  shows "\<exists>b' ts. process_matching b = Some b' \<and> wf_book b' \<and>
           trade_log b' = trade_log b @ ts \<and> list_all (priced_at_min b) ts"
proof -
  define I where "I = (\<lambda>c::order_book. (\<exists>ts. trade_log c = trade_log b @ ts \<and> list_all (priced_at_min b) ts) \<and>
      (\<forall>k ord. order_lookup c k = Some ord \<longrightarrow>
         (\<exists>ord0. order_lookup b k = Some ord0 \<and> price ord0 = price ord \<and>
                 is_buy ord0 = is_buy ord)))"
  have I0: "I b" by (simp add: I_def)
  have step: "I (execute_trade bo so (min (quantity bo) (quantity so)) c)"
    if wfc: "wf_book c" and Ic: "I c" and cr: "next_iteration c = Cross bo so" for c bo so
  proof -
    let ?tq = "min (quantity bo) (quantity so)"
    let ?c' = "execute_trade bo so ?tq c"
    from wf_Cross [OF wfc cr] have
      bo: "order_lookup c (order_id bo) = Some bo" "is_buy bo" and
      so: "order_lookup c (order_id so) = Some so" "\<not> is_buy so" and
      le: "price so \<le> price bo" by simp_all
    from Ic obtain ts where ts: "trade_log c = trade_log b @ ts" "list_all (priced_at_min b) ts"
      and sub: "\<And>k ord. order_lookup c k = Some ord \<Longrightarrow>
         \<exists>ord0. order_lookup b k = Some ord0 \<and> price ord0 = price ord \<and> is_buy ord0 = is_buy ord"
      unfolding I_def by blast
    from sub [OF bo(1)] obtain bo0 where
      bo0: "order_lookup b (order_id bo) = Some bo0" "price bo0 = price bo" "is_buy bo0"
      using bo(2) by auto
    from sub [OF so(1)] obtain so0 where
      so0: "order_lookup b (order_id so) = Some so0" "price so0 = price so" "\<not> is_buy so0"
      using so(2) by auto
    let ?t = "\<lparr>trade_quantity = ?tq, trade_price = min (price bo) (price so),
               buy_id = order_id bo, sell_id = order_id so\<rparr>"
    have "priced_at_min b ?t"
      using bo0 so0 le by (simp add: priced_at_min_def min_def)
    then have 1: "\<exists>ts'. trade_log ?c' = trade_log b @ ts' \<and> list_all (priced_at_min b) ts'"
      using ts by (intro exI [of _ "ts @ [?t]"]) (simp add: execute_trade_stats)
    have 2: "\<exists>ord0. order_lookup b k = Some ord0 \<and> price ord0 = price ord \<and>
                     is_buy ord0 = is_buy ord"
      if "order_lookup ?c' k = Some ord" for k ord
    proof (cases "k = order_id so")
      case True
      with that bo0 so0 bo so show ?thesis
        by (auto simp: execute_trade_effect(1) [OF wfc bo so] split: if_splits)
    next
      case False
      note nso = this
      show ?thesis
      proof (cases "k = order_id bo")
        case True
        with nso that bo0 bo show ?thesis
          by (auto simp: execute_trade_effect(1) [OF wfc bo so] split: if_splits)
      next
        case False
        with nso that have "order_lookup c k = Some ord"
          by (simp add: execute_trade_effect(1) [OF wfc bo so])
        then show ?thesis by (rule sub)
      qed
    qed
    from 1 2 show ?thesis unfolding I_def by blast
  qed
  from process_matching_rule [of b I, OF wf I0 step] show ?thesis
    unfolding I_def by blast
qed

subsection \<open>Chains during matching\<close>

lemma wf_chain_member:
  assumes "wf_book b" "k \<in> set (chain_at bs p b)"
  shows "\<exists>ord. order_lookup b k = Some ord \<and> order_id ord = k \<and> is_buy ord = bs \<and> price ord = p"
proof -
  from assms(2) obtain l where "side_find p (side_of bs b) = Some l" "k \<in> set (fifo l)"
    by (cases "side_find p (side_of bs b)") (auto simp: chain_at_def)
  then show ?thesis by (rule wf_member [OF assms(1)])
qed

lemma wf_chain_distinct: "wf_book b \<Longrightarrow> distinct (chain_at bs p b)"
  by (auto simp: chain_at_def split: option.splits dest: wf_level)

lemma Cross_chain:
  assumes wf: "wf_book c" and cr: "next_iteration c = Cross bo so"
  shows "\<exists>rest. chain_at True (price bo) c = order_id bo # rest"
    and "\<exists>rest. chain_at False (price so) c = order_id so # rest"
proof -
  from wf_next_iteration [OF wf] cr obtain bl rb al ra rfb rfa where
    f: "bids c = (price bo, bl) # rb" "asks c = (price so, al) # ra"
       "fifo bl = order_id bo # rfb" "fifo al = order_id so # rfa"
    by (elim disjE exE conjE) simp_all
  show "\<exists>rest. chain_at True (price bo) c = order_id bo # rest"
    using f(1,3) by (simp add: chain_at_def side_of_def side_find_def)
  show "\<exists>rest. chain_at False (price so) c = order_id so # rest"
    using f(2,4) by (simp add: chain_at_def side_of_def side_find_def)
qed

lemma chain_filled:
  "(case Option.bind lo (filled k tq full) of None \<Rightarrow> [] | Some l \<Rightarrow> fifo l) =
     (if full then remove1 k (case lo of None \<Rightarrow> [] | Some l \<Rightarrow> fifo l)
      else (case lo of None \<Rightarrow> [] | Some l \<Rightarrow> fifo l))"
  by (cases lo) (simp_all add: filled_def)

lemma execute_trade_chain:
  assumes wf: "wf_book c" and cr: "next_iteration c = Cross bo so"
  shows "chain_at True p (execute_trade bo so tq c) =
           (if p = price bo \<and> quantity bo = tq then remove1 (order_id bo) (chain_at True p c)
            else chain_at True p c)"
    and "chain_at False p (execute_trade bo so tq c) =
           (if p = price so \<and> quantity so = tq then remove1 (order_id so) (chain_at False p c)
            else chain_at False p c)"
proof -
  from wf_Cross [OF wf cr] have
    bo: "order_lookup c (order_id bo) = Some bo" "is_buy bo" and
    so: "order_lookup c (order_id so) = Some so" "\<not> is_buy so" by simp_all
  note eff = execute_trade_effect [OF wf bo so]
  show "chain_at True p (execute_trade bo so tq c) =
           (if p = price bo \<and> quantity bo = tq then remove1 (order_id bo) (chain_at True p c)
            else chain_at True p c)"
    unfolding chain_at_def eff(2) by (simp add: chain_filled)
  show "chain_at False p (execute_trade bo so tq c) =
           (if p = price so \<and> quantity so = tq then remove1 (order_id so) (chain_at False p c)
            else chain_at False p c)"
    unfolding chain_at_def eff(3) by (simp add: chain_filled)
qed

text \<open>After one iteration, the chain of a level is the old one or its tail, and only the
  order at the head of a chain can have changed.\<close>

lemma execute_trade_fifo_step:
  assumes wf: "wf_book c" and cr: "next_iteration c = Cross bo so"
  shows "(chain_at bs p (execute_trade bo so tq c) = chain_at bs p c \<or>
          (chain_at bs p (execute_trade bo so tq c) = tl (chain_at bs p c) \<and>
           chain_at bs p c \<noteq> [] \<and>
           order_lookup (execute_trade bo so tq c) (hd (chain_at bs p c)) = None)) \<and>
         (\<forall>k\<in>set (tl (chain_at bs p c)).
            order_lookup (execute_trade bo so tq c) k = order_lookup c k) \<and>
         (\<forall>k. order_lookup c k = None \<longrightarrow> order_lookup (execute_trade bo so tq c) k = None)"
proof -
  let ?c' = "execute_trade bo so tq c"
  from wf_Cross [OF wf cr] have
    bo: "order_lookup c (order_id bo) = Some bo" "is_buy bo" and
    so: "order_lookup c (order_id so) = Some so" "\<not> is_buy so" by simp_all
  note lk = execute_trade_effect(1) [OF wf bo so]
  define x where "x = (if bs then bo else so)"
  define y where "y = (if bs then so else bo)"
  have xs: "is_buy x = bs" and ys: "is_buy y \<noteq> bs" using bo(2) so(2) by (simp_all add: x_def y_def)
  have lx: "order_lookup c (order_id x) = Some x" using bo(1) so(1) by (simp add: x_def)
  have ly: "order_lookup c (order_id y) = Some y" using bo(1) so(1) by (simp add: y_def)
  have other: "order_lookup ?c' k = order_lookup c k" if "k \<noteq> order_id x" "k \<noteq> order_id y" for k
    using that by (cases bs) (simp_all add: lk x_def y_def)
  have gone: "order_lookup ?c' (order_id x) = None" if "quantity x = tq"
    using that opposite_ids [OF bo(1) so(1) bo(2) so(2)] by (cases bs) (simp_all add: lk x_def)
  from Cross_chain [OF wf cr] obtain rest where
    hx: "chain_at bs (price x) c = order_id x # rest" by (cases bs) (auto simp: x_def)
  have ch: "chain_at bs q ?c' =
             (if q = price x \<and> quantity x = tq then remove1 (order_id x) (chain_at bs q c)
              else chain_at bs q c)" for q
    using execute_trade_chain [OF wf cr, of q tq] by (cases bs) (simp_all add: x_def)
  have noty: "k \<noteq> order_id y" if "k \<in> set (chain_at bs p c)" for k
  proof
    assume "k = order_id y"
    with wf_chain_member [OF wf that] ly ys show False by auto
  qed
  have notx: "k \<noteq> order_id x" if "k \<in> set (tl (chain_at bs p c))" for k
  proof
    assume e: "k = order_id x"
    have "k \<in> set (chain_at bs p c)" using that by (cases "chain_at bs p c") auto
    from wf_chain_member [OF wf this] lx e have "p = price x" by auto
    with that hx have "order_id x \<in> set rest" using e by simp
    moreover have "distinct (order_id x # rest)"
      using wf_chain_distinct [OF wf, of bs "price x"] hx by simp
    ultimately show False by simp
  qed
  have 1: "chain_at bs p ?c' = chain_at bs p c \<or>
          (chain_at bs p ?c' = tl (chain_at bs p c) \<and> chain_at bs p c \<noteq> [] \<and>
           order_lookup ?c' (hd (chain_at bs p c)) = None)"
  proof (cases "p = price x \<and> quantity x = tq")
    case True
    with hx gone show ?thesis by (simp add: ch)
  next
    case False
    then have "chain_at bs p ?c' = chain_at bs p c" by (auto simp: ch)
    then show ?thesis by blast
  qed
  have 2: "\<forall>k\<in>set (tl (chain_at bs p c)). order_lookup ?c' k = order_lookup c k"
  proof
    fix k assume k: "k \<in> set (tl (chain_at bs p c))"
    then have "k \<in> set (chain_at bs p c)" by (cases "chain_at bs p c") auto
    from other [OF notx [OF k] noty [OF this]] show "order_lookup ?c' k = order_lookup c k" .
  qed
  have 3: "\<forall>k. order_lookup c k = None \<longrightarrow> order_lookup ?c' k = None"
  proof (intro allI impI)
    fix k assume n: "order_lookup c k = None"
    with lx ly have "k \<noteq> order_id x" "k \<noteq> order_id y" by auto
    from other [OF this] n show "order_lookup ?c' k = None" by simp
  qed
  from 1 2 3 show ?thesis by (intro conjI)
qed

lemma nth_in_take: "i < n \<Longrightarrow> i < length xs \<Longrightarrow> xs ! i \<in> set (take n xs)"
  by (metis in_set_conv_nth length_take min_less_iff_conj nth_take)

lemma nth_in_drop: "m \<le> j \<Longrightarrow> j < length xs \<Longrightarrow> xs ! j \<in> set (drop m xs)"
proof -
  assume a: "m \<le> j" "j < length xs"
  then have "drop m xs ! (j - m) = xs ! j" by simp
  moreover have "j - m < length (drop m xs)" using a by simp
  ultimately show ?thesis by (metis nth_mem)
qed

lemma chain_at_level:
  assumes "wf_book b" "(p, l) \<in> set (side_of bs b)"
  shows "chain_at bs p b = fifo l"
  using in_set_find [OF wf_sorted [OF assms(1)] assms(2)] by (simp add: chain_at_def)

lemma process_matching_fifo:
  assumes wf: "wf_book b"
  shows "\<exists>b'. process_matching b = Some b' \<and> wf_book b' \<and> fifo_respected b b'"
proof -
  define J where "J = (\<lambda>c::order_book. \<forall>bs p. \<exists>n.
      chain_at bs p c = drop n (chain_at bs p b) \<and>
      (\<forall>k\<in>set (take n (chain_at bs p b)). order_lookup c k = None) \<and>
      (\<forall>k\<in>set (drop (Suc n) (chain_at bs p b)). order_lookup c k = order_lookup b k))"
  have J0: "J b"
    unfolding J_def by (intro allI exI [of _ 0]) simp
  have step: "J (execute_trade bo so (min (quantity bo) (quantity so)) c)"
    if wfc: "wf_book c" and Jc: "J c" and cr: "next_iteration c = Cross bo so" for c bo so
    unfolding J_def
  proof (intro allI)
    fix bs p
    let ?c' = "execute_trade bo so (min (quantity bo) (quantity so)) c"
    let ?xs = "chain_at bs p b"
    from Jc obtain n where
      n: "chain_at bs p c = drop n ?xs"
         "\<And>k. k \<in> set (take n ?xs) \<Longrightarrow> order_lookup c k = None"
         "\<And>k. k \<in> set (drop (Suc n) ?xs) \<Longrightarrow> order_lookup c k = order_lookup b k"
      unfolding J_def by blast
    from execute_trade_fifo_step [OF wfc cr, of bs p "min (quantity bo) (quantity so)"] have
      ch: "chain_at bs p ?c' = chain_at bs p c \<or>
           (chain_at bs p ?c' = tl (chain_at bs p c) \<and> chain_at bs p c \<noteq> [] \<and>
            order_lookup ?c' (hd (chain_at bs p c)) = None)"
      and same: "\<And>k. k \<in> set (tl (chain_at bs p c)) \<Longrightarrow> order_lookup ?c' k = order_lookup c k"
      and none: "\<And>k. order_lookup c k = None \<Longrightarrow> order_lookup ?c' k = None"
      by blast+
    have tl_eq: "tl (chain_at bs p c) = drop (Suc n) ?xs"
      by (simp add: n(1) drop_Suc tl_drop)
    have keep: "order_lookup ?c' k = order_lookup b k" if "k \<in> set (drop (Suc n) ?xs)" for k
      using same [of k] n(3) [OF that] that by (simp add: tl_eq)
    from ch show "\<exists>n. chain_at bs p ?c' = drop n ?xs \<and>
          (\<forall>k\<in>set (take n ?xs). order_lookup ?c' k = None) \<and>
          (\<forall>k\<in>set (drop (Suc n) ?xs). order_lookup ?c' k = order_lookup b k)"
    proof
      assume "chain_at bs p ?c' = chain_at bs p c"
      then show ?thesis
        using n(1) n(2) none keep by (intro exI [of _ n]) auto
    next
      assume a: "chain_at bs p ?c' = tl (chain_at bs p c) \<and> chain_at bs p c \<noteq> [] \<and>
            order_lookup ?c' (hd (chain_at bs p c)) = None"
      then have lt: "n < length ?xs" by (simp add: n(1))
      have hd_eq: "hd (chain_at bs p c) = ?xs ! n"
        using lt by (simp add: n(1) hd_drop_conv_nth)
      have tk: "take (Suc n) ?xs = take n ?xs @ [?xs ! n]"
        using lt by (rule take_Suc_conv_app_nth)
      have 1: "chain_at bs p ?c' = drop (Suc n) ?xs" using a by (simp add: tl_eq)
      have 2: "\<forall>k\<in>set (take (Suc n) ?xs). order_lookup ?c' k = None"
        using a n(2) none by (auto simp: tk hd_eq)
      have 3: "\<forall>k\<in>set (drop (Suc (Suc n)) ?xs). order_lookup ?c' k = order_lookup b k"
      proof
        fix k assume "k \<in> set (drop (Suc (Suc n)) ?xs)"
        then have "k \<in> set (drop (Suc n) ?xs)"
          using set_drop_subset_set_drop [of "Suc n" "Suc (Suc n)" ?xs] by auto
        then show "order_lookup ?c' k = order_lookup b k" by (rule keep)
      qed
      from 1 2 3 show ?thesis by (intro exI [of _ "Suc n"]) simp
    qed
  qed
  from process_matching_rule [of b J, OF wf J0 step] obtain b' where
    b': "process_matching b = Some b'" "wf_book b'" "J b'" by blast
  have "fifo_respected b b'"
    unfolding fifo_respected_def
  proof (intro ballI allI impI)
    fix e j i
    assume e: "e \<in> set (bids b) \<union> set (asks b)" and j: "j < length (fifo (snd e))"
      and i: "i < j"
      and changed: "order_lookup b' (fifo (snd e) ! j) \<noteq> order_lookup b (fifo (snd e) ! j)"
    from e have "(fst e, snd e) \<in> set (side_of True b) \<or> (fst e, snd e) \<in> set (side_of False b)"
      by (simp add: side_of_def)
    then obtain bs where "(fst e, snd e) \<in> set (side_of bs b)" by blast
    from chain_at_level [OF wf this] have xs: "chain_at bs (fst e) b = fifo (snd e)" .
    from b'(3) obtain n where
      n: "\<And>k. k \<in> set (take n (fifo (snd e))) \<Longrightarrow> order_lookup b' k = None"
         "\<And>k. k \<in> set (drop (Suc n) (fifo (snd e))) \<Longrightarrow> order_lookup b' k = order_lookup b k"
      unfolding J_def xs [symmetric] by blast
    show "order_lookup b' (fifo (snd e) ! i) = None"
    proof (cases "i < n")
      case True
      with i j show ?thesis by (intro n(1) nth_in_take) simp_all
    next
      case False
      with i have "Suc n \<le> j" by simp
      from n(2) [OF nth_in_drop [OF this j]] changed show ?thesis by simp
    qed
  qed
  with b' show ?thesis by blast
qed

lemma fifo_respected_refl: "fifo_respected b b"
  by (simp add: fifo_respected_def)

lemma reachable_book_1_2_3:
  "reachable (add_order_to_side sell_3 False
                (add_order_to_side buy_2 True (add_order_to_side buy_1 True empty_book)))"
proof -
  have "accepted sell_3 (add_order_to_side buy_2 True (add_order_to_side buy_1 True empty_book))"
    by (simp add: accepted_def sell_3_def book_1_2_eval)
  from reachable_placed [OF reachable_book_1_2 this, of 0] show ?thesis
    by (simp add: stamped_def sell_3_def)
qed

subsection \<open>Aggregates\<close>

lemma aggregates_exactI:
  assumes "\<And>bs p l. side_find p (side_of bs b) = Some l \<Longrightarrow> level_exact b l"
    and "wf_book b"
  shows "aggregates_exact b"
  unfolding aggregates_exact_def list_all_iff
proof
  fix e assume "e \<in> set (bids b @ asks b)"
  then have "(fst e, snd e) \<in> set (side_of True b) \<or> (fst e, snd e) \<in> set (side_of False b)"
    by (auto simp: side_of_def)
  then obtain bs where "(fst e, snd e) \<in> set (side_of bs b)" by blast
  from in_set_find [OF wf_sorted [OF assms(2)] this] show "level_exact b (snd e)"
    by (rule assms(1))
qed

lemma aggregates_exactD:
  assumes "aggregates_exact b" "side_find p (side_of bs b) = Some l"
  shows "level_exact b l"
proof -
  from find_in_set [OF assms(2)] have "(p, l) \<in> set (bids b @ asks b)"
    by (cases bs) (simp_all add: side_of_def)
  with assms(1) have "level_exact b (snd (p, l))"
    unfolding aggregates_exact_def list_all_iff by blast
  then show ?thesis by simp
qed

lemma sum_list_agree:
  "(\<And>k. k \<in> set xs \<Longrightarrow> f k = g k) \<Longrightarrow> sum_list (map f xs) = sum_list (map g xs)"
  by (induction xs) auto

lemma sum_list_remove1_nat:
  fixes f :: "'a \<Rightarrow> nat"
  assumes "k \<in> set xs"
  shows "sum_list (map f (remove1 k xs)) = sum_list (map f xs) - f k"
  using sum_list_map_remove1 [OF assms, of f] by simp

lemma level_exact_agree:
  assumes "\<And>k. k \<in> set (fifo l) \<Longrightarrow> qty_of b' k = qty_of b k"
    and "total_quantity l' = total_quantity l" "fifo l' = fifo l"
  shows "level_exact b' l' = level_exact b l"
  unfolding level_exact_def assms(2,3) using sum_list_agree [of "fifo l" "qty_of b'" "qty_of b"] assms(1)
  by simp

lemma unat_add_delta:
  fixes t q n :: u64
  assumes "unat q \<le> unat t" "unat t - unat q + unat n < 2 ^ 64"
  shows "unat (t + (n - q)) = unat t - unat q + unat n"
proof -
  have le: "q \<le> t" using assms(1) by (simp add: word_le_nat_alt)
  have eq: "t + (n - q) = (t - q) + n" by simp
  have "unat ((t - q) + n) = unat (t - q) + unat n"
    using assms(2) unat_add_lem [of "t - q" n] by (simp add: unat_sub [OF le])
  then show ?thesis unfolding eq by (simp add: unat_sub [OF le])
qed

lemma unat_sub_le:
  fixes t q :: u64
  assumes "unat q \<le> unat t"
  shows "q \<le> t" "unat (t - q) = unat t - unat q"
  using assms by (simp_all add: word_le_nat_alt unat_sub)

lemma qty_of_placed:
  "qty_of (add_order_to_side ord bs b) k =
     (if k = order_id ord then unat (quantity ord) else qty_of b k)"
  by (simp add: qty_of_def add_order_to_side_lookup)

lemma aggregates_placed:
  assumes wf: "wf_book b" and ag: "aggregates_exact b"
    and fresh: "order_lookup b (order_id ord) = None"
    and fit: "unat (level_total (is_buy ord) (price ord) b) + unat (quantity ord) < 2 ^ 64"
  shows "aggregates_exact (add_order_to_side ord (is_buy ord) b)"
proof (rule aggregates_exactI)
  let ?b' = "add_order_to_side ord (is_buy ord) b"
  show "wf_book ?b'" by (rule wf_add_order_to_side [OF wf fresh])
  fix bs p l' assume f: "side_find p (side_of bs ?b') = Some l'"
  note fnd = add_order_to_side_find [OF wf_sorted [OF wf]]
  have old: "qty_of ?b' k = qty_of b k" if "side_find q (side_of bs0 b) = Some l0" "k \<in> set (fifo l0)"
    for q bs0 l0 k
  proof -
    from wf_member [OF wf that] fresh have "k \<noteq> order_id ord" by auto
    then show ?thesis by (simp add: qty_of_placed)
  qed
  show "level_exact ?b' l'"
  proof (cases "bs = is_buy ord \<and> p = price ord")
    case False
    with f have f0: "side_find p (side_of bs b) = Some l'" by (simp add: fnd split: if_splits)
    have "level_exact ?b' l' = level_exact b l'"
      by (rule level_exact_agree [OF old [OF f0]]) simp_all
    with aggregates_exactD [OF ag f0] show ?thesis by simp
  next
    case True
    with f have l': "l' = placed ord (side_find (price ord) (side_of (is_buy ord) b))"
      by (simp add: fnd)
    show ?thesis
    proof (cases "side_find (price ord) (side_of (is_buy ord) b)")
      case None
      then show ?thesis
        by (simp add: l' placed_def new_level_def level_exact_def qty_of_placed)
    next
      case (Some l0)
      have t0: "level_total (is_buy ord) (price ord) b = total_quantity l0"
        by (simp add: level_total_def Some)
      have s: "sum_list (map (qty_of ?b') (fifo l0)) = sum_list (map (qty_of b) (fifo l0))"
        by (rule sum_list_agree) (rule old [OF Some])
      have e0: "unat (total_quantity l0) = sum_list (map (qty_of b) (fifo l0))"
        using aggregates_exactD [OF ag Some] by (simp add: level_exact_def)
      have "unat (total_quantity l0 + quantity ord) = unat (total_quantity l0) + unat (quantity ord)"
        using fit unat_add_lem [of "total_quantity l0" "quantity ord"] by (simp add: t0)
      then show ?thesis
        by (simp add: l' Some placed_def level_exact_def s e0 qty_of_placed)
    qed
  qed
qed

lemma aggregates_removed:
  assumes wf: "wf_book b" and ag: "aggregates_exact b" and lk: "order_lookup b k = Some node"
  shows "aggregates_exact (snd (remove_order_from_side k (is_buy node) b))"
proof (rule aggregates_exactI)
  let ?b' = "snd (remove_order_from_side k (is_buy node) b)"
  show "wf_book ?b'" by (rule wf_remove_order_from_side [OF wf lk])
  from wf_indexed [OF wf lk] obtain l where
    l: "side_find (price node) (side_of (is_buy node) b) = Some l" and kl: "k \<in> set (fifo l)"
    by blast
  have dl: "distinct (fifo l)" using wf_level [OF wf l] by simp
  note fnd = remove_order_from_side_find [OF lk l]
  have q': "qty_of ?b' j = (if j = k then 0 else qty_of b j)" for j
    by (simp add: qty_of_def remove_order_from_side_lookup [OF lk l])
  have qk: "qty_of b k = unat (quantity node)" by (simp add: qty_of_def lk)
  fix bs p l' assume f: "side_find p (side_of bs ?b') = Some l'"
  show "level_exact ?b' l'"
  proof (cases "bs = is_buy node \<and> p = price node")
    case False
    with f have f0: "side_find p (side_of bs b) = Some l'" by (simp add: fnd split: if_splits)
    have "k \<notin> set (fifo l')"
    proof
      assume "k \<in> set (fifo l')"
      from wf_member [OF wf f0 this] lk have "is_buy node = bs \<and> price node = p" by auto
      with False show False by simp
    qed
    then have "level_exact ?b' l' = level_exact b l'"
      by (intro level_exact_agree) (auto simp: q')
    with aggregates_exactD [OF ag f0] show ?thesis by simp
  next
    case True
    with f have u: "unlinked k node l = Some l'" by (simp add: fnd)
    have e0: "unat (total_quantity l) = sum_list (map (qty_of b) (fifo l))"
      using aggregates_exactD [OF ag l] by (simp add: level_exact_def)
    have r: "sum_list (map (qty_of b) (remove1 k (fifo l))) =
               sum_list (map (qty_of b) (fifo l)) - unat (quantity node)"
      using sum_list_remove1_nat [OF kl, of "qty_of b"] by (simp add: qk)
    have "unat (quantity node) \<le> unat (total_quantity l)"
      using sum_list_map_remove1 [OF kl, of "qty_of b"] by (simp add: e0 qk)
    note le = unat_sub_le [OF this]
    have s: "sum_list (map (qty_of ?b') (remove1 k (fifo l))) =
               sum_list (map (qty_of b) (remove1 k (fifo l)))"
      by (rule sum_list_agree) (use dl in \<open>auto simp: q'\<close>)
    from u have "total_quantity l' = total_quantity l - quantity node"
      "fifo l' = remove1 k (fifo l)"
      using le(1) by (auto simp: unlinked_def split: if_splits)
    then show ?thesis by (simp add: level_exact_def s r le(2) e0)
  qed
qed

lemma aggregates_cancel_order:
  assumes wf: "wf_book b" and ag: "aggregates_exact b"
  shows "aggregates_exact (snd (cancel_order k b))"
proof (cases "order_lookup b k")
  case None
  with ag show ?thesis by (simp add: cancel_order_absent)
next
  case (Some node)
  with aggregates_removed [OF wf ag Some] show ?thesis by (simp add: cancel_order_present)
qed

lemma lookup_unique:
  assumes "order_lookup b k = Some o1" "order_lookup b (order_id o2) = Some o2" "k = order_id o2"
  shows "o1 = o2"
proof -
  have "Some o1 = order_lookup b k" by (simp only: assms(1))
  also have "\<dots> = Some o2" by (simp only: assms(3) assms(2))
  finally show ?thesis by simp
qed

lemma aggregates_executed:
  assumes wf: "wf_book b" and ag: "aggregates_exact b" and cr: "next_iteration b = Cross bo so"
  shows "aggregates_exact (execute_trade bo so (min (quantity bo) (quantity so)) b)"
proof (rule aggregates_exactI)
  let ?tq = "min (quantity bo) (quantity so)"
  let ?b' = "execute_trade bo so ?tq b"
  from wf_Cross [OF wf cr] have
    bo: "order_lookup b (order_id bo) = Some bo" "is_buy bo" and
    so: "order_lookup b (order_id so) = Some so" "\<not> is_buy so" by simp_all
  show "wf_book ?b'" by (rule execute_trade_wf [OF wf bo so])
  note eff = execute_trade_effect [OF wf bo so]
  fix bs p l' assume f: "side_find p (side_of bs ?b') = Some l'"
  define x where "x = (if bs then bo else so)"
  define y where "y = (if bs then so else bo)"
  have xs: "is_buy x = bs" and ys: "is_buy y \<noteq> bs" using bo(2) so(2) by (simp_all add: x_def y_def)
  have lx: "order_lookup b (order_id x) = Some x" using bo(1) so(1) by (simp add: x_def)
  have ly: "order_lookup b (order_id y) = Some y" using bo(1) so(1) by (simp add: y_def)
  have nxy: "order_id x \<noteq> order_id y"
    using opposite_ids [OF bo(1) so(1) bo(2) so(2)] by (cases bs) (auto simp: x_def y_def)
  have tqx: "?tq \<le> quantity x" by (simp add: x_def)
  have other: "qty_of ?b' k = qty_of b k" if "k \<noteq> order_id x" "k \<noteq> order_id y" for k
    using that by (cases bs) (simp_all add: qty_of_def eff(1) x_def y_def)
  have qx': "qty_of ?b' (order_id x) = unat (quantity x) - unat ?tq"
  proof -
    have "order_lookup ?b' (order_id x) =
            (if quantity x = ?tq then None else Some (x\<lparr>quantity := quantity x - ?tq\<rparr>))"
      using nxy by (cases bs) (simp_all add: eff(1) x_def y_def)
    then show ?thesis using tqx by (simp add: qty_of_def unat_sub)
  qed
  have fnd: "side_find q (side_of bs ?b') =
               (if q = price x
                then Option.bind (side_find q (side_of bs b))
                       (filled (order_id x) ?tq (quantity x = ?tq))
                else side_find q (side_of bs b))" for q
    by (cases bs) (simp_all add: eff(2,3) x_def)
  have in_level: "k \<noteq> order_id y \<and> (k = order_id x \<longrightarrow> q = price x)"
    if "side_find q (side_of bs b) = Some l0" "k \<in> set (fifo l0)" for q l0 k
  proof -
    from wf_member [OF wf that] obtain o' where
      o': "order_lookup b k = Some o'" "is_buy o' = bs" "price o' = q" by blast
    have "k \<noteq> order_id y"
    proof
      assume "k = order_id y"
      from lookup_unique [OF o'(1) ly this] o'(2) ys show False by simp
    qed
    moreover have "k = order_id x \<longrightarrow> q = price x"
    proof
      assume "k = order_id x"
      from lookup_unique [OF o'(1) lx this] o'(3) show "q = price x" by simp
    qed
    ultimately show ?thesis by blast
  qed
  show "level_exact ?b' l'"
  proof (cases "p = price x")
    case False
    with f have f0: "side_find p (side_of bs b) = Some l'" by (simp add: fnd)
    have "level_exact ?b' l' = level_exact b l'"
    proof (rule level_exact_agree)
      fix k assume "k \<in> set (fifo l')"
      from in_level [OF f0 this] False show "qty_of ?b' k = qty_of b k" by (intro other) auto
    qed simp_all
    with aggregates_exactD [OF ag f0] show ?thesis by simp
  next
    case True
    with f obtain l where l: "side_find (price x) (side_of bs b) = Some l"
      and fl: "filled (order_id x) ?tq (quantity x = ?tq) l = Some l'"
      by (cases "side_find (price x) (side_of bs b)") (simp_all add: fnd)
    from Cross_chain [OF wf cr] obtain rest where "chain_at bs (price x) b = order_id x # rest"
      by (cases bs) (auto simp: x_def)
    with l have hd: "fifo l = order_id x # rest" by (simp add: chain_at_def)
    have nx: "order_id x \<notin> set rest" using wf_level [OF wf l] hd by simp
    have s: "sum_list (map (qty_of ?b') rest) = sum_list (map (qty_of b) rest)"
    proof (rule sum_list_agree)
      fix k assume k: "k \<in> set rest"
      then have "k \<in> set (fifo l)" by (simp add: hd)
      from in_level [OF l this] nx k show "qty_of ?b' k = qty_of b k" by (intro other) auto
    qed
    have e0: "unat (total_quantity l) = unat (quantity x) + sum_list (map (qty_of b) rest)"
      using aggregates_exactD [OF ag l] by (simp add: level_exact_def hd qty_of_def lx)
    have le: "unat ?tq \<le> unat (quantity x)" using tqx by (simp add: word_le_nat_alt)
    then have "unat ?tq \<le> unat (total_quantity l)" using e0 by simp
    note sub = unat_sub_le(2) [OF this]
    show ?thesis
    proof (cases "quantity x = ?tq")
      case True
      with fl have "total_quantity l' = total_quantity l - ?tq" "fifo l' = rest"
        by (auto simp: filled_def hd split: if_splits)
      then show ?thesis using True e0 by (simp add: level_exact_def sub s)
    next
      case False
      with fl have "total_quantity l' = total_quantity l - ?tq" "fifo l' = order_id x # rest"
        by (auto simp: filled_def hd)
      then show ?thesis using le e0 by (simp add: level_exact_def sub s qx')
    qed
  qed
qed

lemma process_matching_aggregates:
  assumes wf: "wf_book b" and ag: "aggregates_exact b"
  shows "\<exists>b'. process_matching b = Some b' \<and> wf_book b' \<and> aggregates_exact b'"
  using process_matching_rule [of b aggregates_exact, OF wf ag aggregates_executed] by blast

lemma aggregates_resized:
  assumes wf: "wf_book b" and ag: "aggregates_exact b" and lk: "order_lookup b k = Some ord"
    and fit: "unat (level_total (is_buy ord) (price ord) b) - unat (quantity ord) + unat nq < 2 ^ 64"
  shows "aggregates_exact (resized k ord nq b)"
proof (rule aggregates_exactI)
  let ?b' = "resized k ord nq b"
  show "wf_book ?b'"
    by (rule wf_same_shape [OF wf same_shape_resized [OF lk wf_order_id [OF wf lk]]])
  from wf_indexed [OF wf lk] obtain l where
    l: "side_find (price ord) (side_of (is_buy ord) b) = Some l" and kl: "k \<in> set (fifo l)"
    by blast
  have dl: "distinct (fifo l)" using wf_level [OF wf l] by simp
  have q': "qty_of ?b' j = (if j = k then unat nq else qty_of b j)" for j
    by (simp add: qty_of_def resized_fields)
  have qk: "qty_of b k = unat (quantity ord)" by (simp add: qty_of_def lk)
  have fnd: "side_find q (side_of bs ?b') =
               (if bs = is_buy ord \<and> q = price ord
                then Some (l\<lparr>total_quantity := total_quantity l + (nq - quantity ord)\<rparr>)
                else side_find q (side_of bs b))" for q bs
    using l by (cases "bs = is_buy ord") (auto simp: resized_fields find_side_modify)
  fix bs p l' assume f: "side_find p (side_of bs ?b') = Some l'"
  show "level_exact ?b' l'"
  proof (cases "bs = is_buy ord \<and> p = price ord")
    case False
    with f have f0: "side_find p (side_of bs b) = Some l'" by (simp add: fnd split: if_splits)
    have "k \<notin> set (fifo l')"
    proof
      assume "k \<in> set (fifo l')"
      from wf_member [OF wf f0 this] lk have "is_buy ord = bs \<and> price ord = p" by auto
      with False show False by simp
    qed
    then have "level_exact ?b' l' = level_exact b l'"
      by (intro level_exact_agree) (auto simp: q')
    with aggregates_exactD [OF ag f0] show ?thesis by simp
  next
    case True
    with f have l': "l' = l\<lparr>total_quantity := total_quantity l + (nq - quantity ord)\<rparr>"
      by (simp add: fnd)
    have e0: "unat (total_quantity l) = sum_list (map (qty_of b) (fifo l))"
      using aggregates_exactD [OF ag l] by (simp add: level_exact_def)
    have split: "sum_list (map f (fifo l)) = f k + sum_list (map f (remove1 k (fifo l)))"
      for f :: "u64 \<Rightarrow> nat"
      by (rule sum_list_map_remove1 [OF kl])
    have s: "sum_list (map (qty_of ?b') (remove1 k (fifo l))) =
               sum_list (map (qty_of b) (remove1 k (fifo l)))"
      by (rule sum_list_agree) (use dl in \<open>auto simp: q'\<close>)
    have le: "unat (quantity ord) \<le> unat (total_quantity l)"
      using split [of "qty_of b"] by (simp add: e0 qk)
    have t: "level_total (is_buy ord) (price ord) b = total_quantity l"
      by (simp add: level_total_def l)
    have "unat (total_quantity l + (nq - quantity ord)) =
            unat (total_quantity l) - unat (quantity ord) + unat nq"
      using fit by (intro unat_add_delta [OF le]) (simp add: t)
    moreover have "sum_list (map (qty_of ?b') (fifo l)) =
            unat nq + sum_list (map (qty_of b) (remove1 k (fifo l)))"
      using split [of "qty_of ?b'"] by (simp add: s q')
    moreover have "sum_list (map (qty_of b) (fifo l)) =
            unat (quantity ord) + sum_list (map (qty_of b) (remove1 k (fifo l)))"
      using split [of "qty_of b"] by (simp add: qk)
    ultimately show ?thesis by (simp add: level_exact_def l' e0)
  qed
qed

lemma reachable_no_overflow_reachable: "reachable_no_overflow b \<Longrightarrow> reachable b"
proof (induction rule: reachable_no_overflow.induct)
  case start
  show ?case by (rule reachable.initial)
next
  case (add_fits b ord m now r b')
  then show ?case by (blast intro: reachable.after_add)
next
  case (cancel_fits b k r b')
  then show ?case by (blast intro: reachable.after_cancel)
next
  case (amend_fits b k p q m now r b')
  then show ?case by (blast intro: reachable.after_amend)
next
  case (match_fits b b')
  then show ?case by (blast intro: reachable.after_match)
qed

lemma aggregates_empty_book: "aggregates_exact empty_book"
  by (simp add: aggregates_exact_def empty_book_def)

lemma aggregates_add_unmatched:
  assumes wf: "wf_book b" and ag: "aggregates_exact b" and fit: "fits_add ord b"
    and a: "add_order ord False now b = Some (r, b1)"
  shows "aggregates_exact b1"
proof (cases "accepted ord b")
  case False
  from add_order_rejected [OF False, of False now] a ag show ?thesis by auto
next
  case True
  have "aggregates_exact (add_order_to_side (stamped ord now) (is_buy (stamped ord now)) b)"
    using True fit
    by (intro aggregates_placed [OF wf ag]) (simp_all add: stamped_fields accepted_def fits_add_def)
  with a add_order_placed [OF True, of now] show ?thesis by (simp add: stamped_fields)
qed

lemma level_total_cancel_order:
  assumes lk: "order_lookup b k = Some ord" and ne: "p \<noteq> price ord"
  shows "level_total bs p (snd (cancel_order k b)) = level_total bs p b"
proof (cases "side_find (price ord) (side_of (is_buy ord) b)")
  case None
  then show ?thesis
    by (simp add: cancel_order_present [OF lk] remove_order_from_side_no_level [OF lk])
next
  case (Some l)
  show ?thesis
    using ne
    by (simp add: level_total_def cancel_order_present [OF lk]
        remove_order_from_side_find [OF lk Some])
qed

lemma aggregates_amend_unmatched:
  assumes wf: "wf_book b" and ag: "aggregates_exact b" and fit: "fits_amend k np nq b"
    and a: "amend_order k np nq False now b = Some (r, b1)"
  shows "aggregates_exact b1"
proof (cases "order_lookup b k")
  case None
  with a ag show ?thesis by (simp add: amend_order_absent)
next
  case (Some ord)
  note lk = this
  consider "nq = 0" | "nq \<noteq> 0" "np \<le> 0" | "nq \<noteq> 0" "0 < np" "price_changed ord np"
    | "nq \<noteq> 0" "0 < np" "\<not> price_changed ord np"
    by fastforce
  then show ?thesis
  proof cases
    case 1
    with a ag lk show ?thesis by (simp add: amend_order_zero)
  next
    case 2
    with a ag lk show ?thesis by (simp add: amend_order_bad_price)
  next
    case 3
    let ?new = "ord\<lparr>price := np, quantity := nq\<rparr>"
    let ?b0 = "snd (cancel_order k b)"
    note rp = amend_order_reprice [OF wf lk 3]
    have ne: "np \<noteq> price ord" by (rule price_changed_neq [OF 3(3)])
    have "fits_add ?new ?b0"
      using fit 3(3) by (simp add: fits_add_def fits_amend_def lk level_total_cancel_order [OF lk ne])
    from aggregates_add_unmatched [OF wf_cancel_order [OF wf] aggregates_cancel_order [OF wf ag] this,
        of now "Returned ()" "add_order_to_side (stamped ?new now) (is_buy ?new) ?b0"]
      add_order_placed [OF rp(2), of now]
    have "aggregates_exact (add_order_to_side (stamped ?new now) (is_buy ?new) ?b0)" by simp
    with a show ?thesis by (simp add: rp(3) add_order_placed [OF rp(2)])
  next
    case 4
    have "aggregates_exact (resized k ord nq b)"
      using fit 4(3) by (intro aggregates_resized [OF wf ag lk]) (simp add: fits_amend_def lk)
    with a show ?thesis by (simp add: amend_order_inplace [OF lk 4])
  qed
qed

lemma aggregates_add_order:
  assumes wf: "wf_book b" and ag: "aggregates_exact b" and fit: "fits_add ord b"
    and a: "add_order ord m now b = Some (r, b')"
  shows "aggregates_exact b'"
proof (cases m)
  case False
  with a have "add_order ord False now b = Some (r, b')" by simp
  then show ?thesis by (rule aggregates_add_unmatched [OF wf ag fit])
next
  case True
  from add_order_split [OF wf, of ord now] obtain r1 b1 where
    s: "add_order ord False now b = Some (r1, b1)" "wf_book b1"
    "add_order ord True now b =
       (if r1 = Returned () then map_option (Pair r1) (process_matching b1) else Some (r1, b1))"
    by blast
  have ag1: "aggregates_exact b1" by (rule aggregates_add_unmatched [OF wf ag fit s(1)])
  from process_matching_aggregates [OF s(2) ag1] obtain b2 where
    "process_matching b1 = Some b2" "aggregates_exact b2" by blast
  with a True s(3) ag1 show ?thesis by (auto split: if_splits)
qed

lemma aggregates_amend_order:
  assumes wf: "wf_book b" and ag: "aggregates_exact b" and fit: "fits_amend k np nq b"
    and a: "amend_order k np nq m now b = Some (r, b')"
  shows "aggregates_exact b'"
proof (cases m)
  case False
  with a have "amend_order k np nq False now b = Some (r, b')" by simp
  then show ?thesis by (rule aggregates_amend_unmatched [OF wf ag fit])
next
  case True
  from amend_order_split [OF wf, of k np nq now] obtain r1 b1 where
    s: "amend_order k np nq False now b = Some (r1, b1)" "wf_book b1"
    "amend_order k np nq True now b =
       (if r1 = Returned True then map_option (Pair r1) (process_matching b1) else Some (r1, b1))"
    by blast
  have ag1: "aggregates_exact b1" by (rule aggregates_amend_unmatched [OF wf ag fit s(1)])
  from process_matching_aggregates [OF s(2) ag1] obtain b2 where
    "process_matching b1 = Some b2" "aggregates_exact b2" by blast
  with a True s(3) ag1 show ?thesis by (auto split: if_splits)
qed

lemma add_order_uncrossed:
  assumes "accepted ord b" "\<not> crossed (add_order_to_side (stamped ord now) (is_buy ord) b)"
  shows "add_order ord True now b =
           Some (Returned (), add_order_to_side (stamped ord now) (is_buy ord) b)"
  using add_order_matched [OF assms(1), of now] process_matching_not_crossed [OF assms(2)]
  by simp

lemma reachable_no_overflow_book_1_2:
  "reachable_no_overflow (add_order_to_side buy_2 True (add_order_to_side buy_1 True empty_book))"
proof -
  have f1: "fits_add buy_1 empty_book"
    by (simp add: fits_add_def level_total_def side_find_def side_of_def empty_book_def buy_1_def)
  have a1: "add_order buy_1 False 0 empty_book =
              Some (Returned (), add_order_to_side buy_1 True empty_book)"
    by (simp add: add_order_def buy_1_def empty_book_def)
  note r1 = reachable_no_overflow.add_fits [OF reachable_no_overflow.start f1 a1]
  have f2: "fits_add buy_2 (add_order_to_side buy_1 True empty_book)"
    by (simp add: fits_add_def level_total_def side_find_def side_of_def book_1_eval buy_2_def)
  have a2: "add_order buy_2 False 0 (add_order_to_side buy_1 True empty_book) =
              Some (Returned (),
                    add_order_to_side buy_2 True (add_order_to_side buy_1 True empty_book))"
    by (simp add: add_order_def book_1_eval buy_2_def)
  show ?thesis by (rule reachable_no_overflow.add_fits [OF r1 f2 a2])
qed

lemma wf_shared_node:
  assumes wf: "wf_book b"
    and e1: "e1 \<in> set (side_of bs1 b)" and e2: "e2 \<in> set (side_of bs2 b)"
    and k1: "k \<in> set (fifo (snd e1))" and k2: "k \<in> set (fifo (snd e2))"
  shows "bs1 = bs2 \<and> e1 = e2"
proof -
  have f1: "side_find (fst e1) (side_of bs1 b) = Some (snd e1)"
    using in_set_find [OF wf_sorted [OF wf], of "fst e1" "snd e1" bs1] e1 by simp
  have f2: "side_find (fst e2) (side_of bs2 b) = Some (snd e2)"
    using in_set_find [OF wf_sorted [OF wf], of "fst e2" "snd e2" bs2] e2 by simp
  from wf_member [OF wf f1 k1] obtain o1 where
    o1: "order_lookup b k = Some o1" "is_buy o1 = bs1" "price o1 = fst e1" by blast
  from wf_member [OF wf f2 k2] obtain o2 where
    o2: "order_lookup b k = Some o2" "is_buy o2 = bs2" "price o2 = fst e2" by blast
  from o1(1) o2(1) have "o1 = o2" by simp
  with o1 o2 have s: "bs1 = bs2" and p: "fst e1 = fst e2" by simp_all
  from f1 f2 s p have "snd e1 = snd e2" by simp
  with p s show ?thesis by (simp add: prod_eq_iff)
qed

lemma wf_distinct_resting_ids:
  assumes wf: "wf_book b"
  shows "distinct (resting_ids b)"
proof -
  let ?f = "\<lambda>e::real \<times> price_level_data. fifo (snd e)"
  let ?xs = "bids b @ asks b"
  have side: "e \<in> set (side_of True b) \<or> e \<in> set (side_of False b)" if "e \<in> set ?xs" for e
    using that by (auto simp: side_of_def)
  have ne: "?f e \<noteq> [] \<and> distinct (?f e)" if "e \<in> set (side_of bs b)" for e bs
    using wf_level [OF wf in_set_find [OF wf_sorted [OF wf], of "fst e" "snd e" bs]] that by simp
  have same: "e1 = e2" if "e1 \<in> set ?xs" "e2 \<in> set ?xs" "k \<in> set (?f e1)" "k \<in> set (?f e2)"
    for e1 e2 k
    using side [OF that(1)] side [OF that(2)] wf_shared_node [OF wf _ _ that(3,4)] by blast
  have d1: "distinct (bids b)" "distinct (asks b)"
    using side_sorted_distinct [OF wf_sorted [OF wf, of True]]
      side_sorted_distinct [OF wf_sorted [OF wf, of False]]
    by (simp_all add: side_of_def distinct_map)
  have d2: "set (bids b) \<inter> set (asks b) = {}"
  proof (rule ccontr)
    assume "set (bids b) \<inter> set (asks b) \<noteq> {}"
    then obtain e where e: "e \<in> set (side_of True b)" "e \<in> set (side_of False b)"
      by (auto simp: side_of_def)
    from ne [OF e(1)] obtain k where "k \<in> set (?f e)" by (cases "?f e") auto
    from wf_shared_node [OF wf e this this] show False by simp
  qed
  have dx: "distinct ?xs" using d1 d2 by simp
  have inj: "inj_on ?f (set ?xs)"
  proof (rule inj_onI)
    fix e1 e2 assume a: "e1 \<in> set ?xs" "e2 \<in> set ?xs" "?f e1 = ?f e2"
    from side [OF a(1)] ne have "?f e1 \<noteq> []" by blast
    then obtain k where "k \<in> set (?f e1)" by (cases "?f e1") auto
    with a(3) have "k \<in> set (?f e1)" "k \<in> set (?f e2)" by simp_all
    from same [OF a(1,2) this] show "e1 = e2" .
  qed
  have "distinct (concat (map ?f ?xs))"
  proof (rule distinct_concat)
    show "distinct (map ?f ?xs)" using dx inj by (simp only: distinct_map)
    show "distinct ys" if "ys \<in> set (map ?f ?xs)" for ys
    proof -
      from that obtain e where "e \<in> set ?xs" "ys = ?f e" by auto
      with side ne show ?thesis by blast
    qed
    show "set ys \<inter> set zs = {}"
      if "ys \<in> set (map ?f ?xs)" "zs \<in> set (map ?f ?xs)" "ys \<noteq> zs" for ys zs
    proof (rule ccontr)
      assume "set ys \<inter> set zs \<noteq> {}"
      then obtain k where k: "k \<in> set ys" "k \<in> set zs" by auto
      from that(1,2) obtain e1 e2 where
        e: "e1 \<in> set ?xs" "ys = ?f e1" "e2 \<in> set ?xs" "zs = ?f e2" by auto
      from same [OF e(1,3)] k e(2,4) have "e1 = e2" by simp
      with e(2,4) that(3) show False by simp
    qed
  qed
  then show ?thesis by (simp add: resting_ids_def)
qed

subsection \<open>The spread\<close>

lemma round_even_error: "\<bar>of_int (round_even r) - r\<bar> \<le> 1 / 2"
proof -
  have "of_int \<lfloor>r\<rfloor> \<le> r" "r < of_int \<lfloor>r\<rfloor> + 1" by linarith+
  then show ?thesis by (auto simp: round_even_def Let_def)
qed

lemma round_to_double_error: "\<bar>round_to_double x - x\<bar> \<le> quantum \<bar>x\<bar> / 2"
proof (cases "x = 0")
  case True
  then show ?thesis using quantum_pos [of 0] by (simp add: round_to_double_zero)
next
  case False
  let ?q = "quantum \<bar>x\<bar>"
  let ?m = "round_even (\<bar>x\<bar> / ?q)"
  have q: "0 < ?q" by (rule quantum_pos)
  have "round_to_double x - x = sgn x * (of_int ?m * ?q) - sgn x * \<bar>x\<bar>"
    using False by (simp add: round_to_double_def sgn_mult_abs)
  then have "round_to_double x - x = sgn x * (of_int ?m * ?q - \<bar>x\<bar>)"
    by (simp only: right_diff_distrib)
  then have "\<bar>round_to_double x - x\<bar> = \<bar>of_int ?m * ?q - \<bar>x\<bar>\<bar>"
    using False by (simp add: abs_mult)
  also have "of_int ?m * ?q - \<bar>x\<bar> = (of_int ?m - \<bar>x\<bar> / ?q) * ?q"
    using q by (simp add: field_simps)
  also have "\<bar>(of_int ?m - \<bar>x\<bar> / ?q) * ?q\<bar> = \<bar>of_int ?m - \<bar>x\<bar> / ?q\<bar> * ?q"
    using q by (simp add: abs_mult)
  also have "\<dots> \<le> 1 / 2 * ?q"
    using round_even_error [of "\<bar>x\<bar> / ?q"] q by (simp only: mult_le_cancel_right_pos)
  finally show ?thesis by simp
qed

lemma double_sub_zero_right: "is_double a \<Longrightarrow> double_sub a 0 = a"
  by (simp add: double_sub_def is_double_def)

lemma double_sub_zero_left: "is_double a \<Longrightarrow> double_sub 0 a = - a"
  by (simp add: double_sub_def is_double_def round_to_double_minus)

lemma side_sorted_hd:
  assumes "side_sorted bs (e # s)" and "x \<in> set s"
  shows "comparator bs (fst e) (fst x)"
  using assms by (auto simp: side_sorted_def)

lemma best_bid_greatest:
  assumes "wf_book b" and "e \<in> set (bids b)"
  shows "fst e \<le> get_best_bid b"
proof -
  from wf_sorted [OF assms(1), of True] have s: "side_sorted True (bids b)"
    by (simp add: side_of_def)
  from assms(2) obtain h t where ht: "bids b = h # t" by (cases "bids b") auto
  show ?thesis
  proof (cases "e = h")
    case True
    then show ?thesis by (simp add: get_best_bid_def ht)
  next
    case False
    with assms(2) ht have "e \<in> set t" by simp
    from side_sorted_hd [OF s [unfolded ht] this] show ?thesis
      by (simp add: get_best_bid_def ht comparator_def)
  qed
qed

lemma best_ask_least:
  assumes "wf_book b" and "e \<in> set (asks b)"
  shows "get_best_ask b \<le> fst e"
proof -
  from wf_sorted [OF assms(1), of False] have s: "side_sorted False (asks b)"
    by (simp add: side_of_def)
  from assms(2) obtain h t where ht: "asks b = h # t" by (cases "asks b") auto
  show ?thesis
  proof (cases "e = h")
    case True
    then show ?thesis by (simp add: get_best_ask_def ht)
  next
    case False
    with assms(2) ht have "e \<in> set t" by simp
    from side_sorted_hd [OF s [unfolded ht] this] show ?thesis
      by (simp add: get_best_ask_def ht comparator_def)
  qed
qed

lemma best_bid_is_level: "bids b \<noteq> [] \<Longrightarrow> \<exists>e\<in>set (bids b). fst e = get_best_bid b"
  by (cases "bids b") (simp_all add: get_best_bid_def)

lemma best_ask_is_level: "asks b \<noteq> [] \<Longrightarrow> \<exists>e\<in>set (asks b). fst e = get_best_ask b"
  by (cases "asks b") (simp_all add: get_best_ask_def)

lemma buy_low_fields:
  "order_id buy_low = 1" "is_buy buy_low"
  "price buy_low = 3602879701896397 / 36028797018963968"
  "quantity buy_low = 10" "timestamp_ns buy_low = 1"
  by (simp_all add: buy_low_def)

lemma sell_high_fields:
  "order_id sell_high = 2" "\<not> is_buy sell_high"
  "price sell_high = 7057985041019699 / 70368744177664"
  "quantity sell_high = 10" "timestamp_ns sell_high = 2"
  by (simp_all add: sell_high_def)

lemma book_low_eval:
  "order_lookup (add_order_to_side buy_low True empty_book) = [1 \<mapsto> buy_low]"
  "bids (add_order_to_side buy_low True empty_book) =
     [(3602879701896397 / 36028797018963968, \<lparr>total_quantity = 10, fifo = [1]\<rparr>)]"
  "asks (add_order_to_side buy_low True empty_book) = []"
  by (simp_all add: add_order_to_side_def Let_def buy_low_def empty_book_def side_of_def
      set_side_def side_modify_def new_level_def)

lemma reachable_book_low: "reachable (add_order_to_side buy_low True empty_book)"
proof -
  have "accepted buy_low empty_book" by (simp add: accepted_def buy_low_def empty_book_def)
  from reachable_placed [OF reachable.initial this, of 0] show ?thesis
    by (simp add: stamped_def buy_low_def)
qed

lemma book_low_high_eval:
  "bids (add_order_to_side sell_high False (add_order_to_side buy_low True empty_book)) =
     [(3602879701896397 / 36028797018963968, \<lparr>total_quantity = 10, fifo = [1]\<rparr>)]"
  "asks (add_order_to_side sell_high False (add_order_to_side buy_low True empty_book)) =
     [(7057985041019699 / 70368744177664, \<lparr>total_quantity = 10, fifo = [2]\<rparr>)]"
  by (simp_all add: add_order_to_side_def [of sell_high] Let_def book_low_eval side_of_def
      set_side_def side_modify_def new_level_def sell_high_fields)

lemma reachable_book_low_high:
  "reachable (add_order_to_side sell_high False (add_order_to_side buy_low True empty_book))"
proof -
  have "accepted sell_high (add_order_to_side buy_low True empty_book)"
    by (simp add: accepted_def sell_high_def book_low_eval)
  from reachable_placed [OF reachable_book_low this, of 0] show ?thesis
    by (simp add: stamped_def sell_high_def)
qed

lemma book_high_eval:
  "bids (add_order_to_side sell_high False empty_book) = []"
  "asks (add_order_to_side sell_high False empty_book) =
     [(7057985041019699 / 70368744177664, \<lparr>total_quantity = 10, fifo = [2]\<rparr>)]"
  by (simp_all add: add_order_to_side_def Let_def sell_high_def empty_book_def side_of_def
      set_side_def side_modify_def new_level_def)

lemma reachable_book_high: "reachable (add_order_to_side sell_high False empty_book)"
proof -
  have "accepted sell_high empty_book" by (simp add: accepted_def sell_high_def empty_book_def)
  from reachable_placed [OF reachable.initial this, of 0] show ?thesis
    by (simp add: stamped_def sell_high_def)
qed

text \<open>The two prices are doubles.\<close>

lemma is_double_examples:
  "is_double (3602879701896397 / 36028797018963968)"
  "is_double (7057985041019699 / 70368744177664)"
  unfolding is_double_def by code_simp+

text \<open>The subtraction \<^verbatim>\<open>100.3 - 0.1\<close> of two doubles, and the literal \<^verbatim>\<open>1e-12\<close>.\<close>

lemma double_sub_example:
  "double_sub (7057985041019699 / 70368744177664) (3602879701896397 / 36028797018963968) =
     7050948166601933 / 70368744177664"
  by code_simp

lemma epsilon_value: "round_to_double (1 / 10 ^ 12) = 4951760157141521 / 2 ^ 92"
  by code_simp

lemma epsilon_less_one: "round_to_double (1 / 10 ^ 12) < 1"
  by (simp only: epsilon_value) simp

section \<open>The claims\<close>

subsection \<open>C1: the price of a trade\<close>

text \<open>
  C1, as the code has it: every trade printed by the matching engine is between a buy
  and a sell order that were in the book when matching started, and its price is the
  minimum of their two prices, which is always the sell order's price. This holds for
  the trades of \<open>match_orders\<close> on a reachable book, and for those of \<open>add_order\<close> and
  \<open>amend_order\<close> called with \<open>match_immediately = true\<close>: these return what the same
  call with \<open>match_immediately = false\<close> returns, followed by matching on the book that
  this call leaves when it is accepted. Without matching no trade is printed, and
  \<open>cancel_order\<close> prints none.
\<close>

theorem C1_trade_price:
  assumes "reachable b"
  shows
   "(\<exists>b' ts. match_orders b = Some b' \<and> trade_log b' = trade_log b @ ts \<and>
             list_all (priced_at_min b) ts) \<and>
    (\<exists>r b1 b' ts. add_order ord False now b = Some (r, b1) \<and> trade_log b1 = trade_log b \<and>
             add_order ord True now b = Some (r, b') \<and>
             trade_log b' = trade_log b1 @ ts \<and> list_all (priced_at_min b1) ts) \<and>
    (\<exists>r b1 b' ts. amend_order k np nq False now b = Some (r, b1) \<and> trade_log b1 = trade_log b \<and>
             amend_order k np nq True now b = Some (r, b') \<and>
             trade_log b' = trade_log b1 @ ts \<and> list_all (priced_at_min b1) ts) \<and>
    trade_log (snd (cancel_order k b)) = trade_log b"
proof -
  have wf: "wf_book b" by (rule reachable_wf [OF assms])
  have 1: "\<exists>b' ts. match_orders b = Some b' \<and> trade_log b' = trade_log b @ ts \<and>
             list_all (priced_at_min b) ts"
    using process_matching_trades [OF wf] by (auto simp: match_orders_def)
  have 2: "\<exists>r b1 b' ts. add_order ord False now b = Some (r, b1) \<and> trade_log b1 = trade_log b \<and>
             add_order ord True now b = Some (r, b') \<and>
             trade_log b' = trade_log b1 @ ts \<and> list_all (priced_at_min b1) ts"
  proof -
    from add_order_split [OF wf, of ord now] obtain r b1 where
      s: "add_order ord False now b = Some (r, b1)" "wf_book b1" "trade_log b1 = trade_log b"
      "add_order ord True now b =
         (if r = Returned () then map_option (Pair r) (process_matching b1) else Some (r, b1))"
      by blast
    show ?thesis
    proof (cases "r = Returned ()")
      case True
      from process_matching_trades [OF s(2)] obtain b' ts where
        "process_matching b1 = Some b'" "trade_log b' = trade_log b1 @ ts"
        "list_all (priced_at_min b1) ts" by blast
      with s True show ?thesis by auto
    next
      case False
      with s have "add_order ord True now b = Some (r, b1)" "trade_log b1 = trade_log b1 @ []"
        "list_all (priced_at_min b1) []" by simp_all
      with s(1,3) show ?thesis by blast
    qed
  qed
  have 3: "\<exists>r b1 b' ts. amend_order k np nq False now b = Some (r, b1) \<and>
             trade_log b1 = trade_log b \<and>
             amend_order k np nq True now b = Some (r, b') \<and>
             trade_log b' = trade_log b1 @ ts \<and> list_all (priced_at_min b1) ts"
  proof -
    from amend_order_split [OF wf, of k np nq now] obtain r b1 where
      s: "amend_order k np nq False now b = Some (r, b1)" "wf_book b1"
      "trade_log b1 = trade_log b"
      "amend_order k np nq True now b =
         (if r = Returned True then map_option (Pair r) (process_matching b1) else Some (r, b1))"
      by blast
    show ?thesis
    proof (cases "r = Returned True")
      case True
      from process_matching_trades [OF s(2)] obtain b' ts where
        "process_matching b1 = Some b'" "trade_log b' = trade_log b1 @ ts"
        "list_all (priced_at_min b1) ts" by blast
      with s True show ?thesis by auto
    next
      case False
      with s have "amend_order k np nq True now b = Some (r, b1)"
        "trade_log b1 = trade_log b1 @ []" "list_all (priced_at_min b1) []" by simp_all
      with s(1,3) show ?thesis by blast
    qed
  qed
  have 4: "trade_log (snd (cancel_order k b)) = trade_log b"
    by (cases "order_lookup b k")
       (simp_all add: cancel_order_absent cancel_order_present remove_order_from_side_stats)
  from 1 2 3 4 show ?thesis by (intro conjI)
qed

text \<open>
  C1 on the crossed book holding buy 1 (100 at 100.0) and sell 2 (50 at 99.0):
  \<open>match_orders\<close> prints one trade of 50 at 99.0.
\<close>

theorem C1_trade_price_witness:
  "(\<exists>b' ts. match_orders (add_order_to_side sell_2 False (add_order_to_side buy_1 True empty_book))
              = Some b' \<and>
            trade_log b' =
              trade_log (add_order_to_side sell_2 False (add_order_to_side buy_1 True empty_book))
              @ ts \<and>
            list_all (priced_at_min
              (add_order_to_side sell_2 False (add_order_to_side buy_1 True empty_book))) ts) \<and>
   map_option trade_log
     (match_orders (add_order_to_side sell_2 False (add_order_to_side buy_1 True empty_book))) =
     Some [\<lparr>trade_quantity = 50, trade_price = 99, buy_id = 1, sell_id = 2\<rparr>]"
proof
  show "\<exists>b' ts. match_orders (add_order_to_side sell_2 False (add_order_to_side buy_1 True empty_book))
              = Some b' \<and>
            trade_log b' =
              trade_log (add_order_to_side sell_2 False (add_order_to_side buy_1 True empty_book))
              @ ts \<and>
            list_all (priced_at_min
              (add_order_to_side sell_2 False (add_order_to_side buy_1 True empty_book))) ts"
    using C1_trade_price [OF reachable_book_12] by blast
  show "map_option trade_log
     (match_orders (add_order_to_side sell_2 False (add_order_to_side buy_1 True empty_book))) =
     Some [\<lparr>trade_quantity = 50, trade_price = 99, buy_id = 1, sell_id = 2\<rparr>]"
    by code_simp
qed

text \<open>
  C1 as stated fails on the maker's price: in the test suite's matching test the buy
  order 1 rests at 100.0 and the sell order 2 arrives at 99.0; the trade is printed at
  99.0, the price of the incoming order, not at the resting order's 100.0.
\<close>

theorem C1_maker_price_counterexample:
  "add_order buy_1 True 0 empty_book =
     Some (Returned (), add_order_to_side buy_1 True empty_book) \<and>
   print_order 1 (add_order_to_side buy_1 True empty_book) =
     Some \<lparr>order_id = 1, is_buy = True, price = 100, quantity = 100, timestamp_ns = 1\<rparr> \<and>
   print_order 2 (add_order_to_side buy_1 True empty_book) = None \<and>
   sell_2 = \<lparr>order_id = 2, is_buy = False, price = 99, quantity = 50, timestamp_ns = 2\<rparr> \<and>
   map_option (trade_log \<circ> snd) (add_order sell_2 True 0 (add_order_to_side buy_1 True empty_book)) =
     Some [\<lparr>trade_quantity = 50, trade_price = 99, buy_id = 1, sell_id = 2\<rparr>]"
proof (intro conjI)
  have a: "accepted buy_1 empty_book" by (simp add: accepted_def buy_1_def empty_book_def)
  have "\<not> crossed (add_order_to_side buy_1 True empty_book)"
    by (simp add: crossed_def book_1_eval)
  then show "add_order buy_1 True 0 empty_book =
     Some (Returned (), add_order_to_side buy_1 True empty_book)"
    using add_order_matched [OF a, of 0]
    by (simp add: process_matching_not_crossed stamped_nonzero buy_1_fields)
  show "print_order 1 (add_order_to_side buy_1 True empty_book) =
     Some \<lparr>order_id = 1, is_buy = True, price = 100, quantity = 100, timestamp_ns = 1\<rparr>"
    by code_simp
  show "print_order 2 (add_order_to_side buy_1 True empty_book) = None"
    by code_simp
  show "sell_2 = \<lparr>order_id = 2, is_buy = False, price = 99, quantity = 50, timestamp_ns = 2\<rparr>"
    by (simp add: sell_2_def)
  show "map_option (trade_log \<circ> snd) (add_order sell_2 True 0 (add_order_to_side buy_1 True empty_book)) =
     Some [\<lparr>trade_quantity = 50, trade_price = 99, buy_id = 1, sell_id = 2\<rparr>]"
    by code_simp
qed

subsection \<open>C2: no crossed book after matching\<close>

text \<open>
  C2, as the code has it: in a reachable book \<open>match_orders\<close> returns and leaves a book
  that is not crossed (a side is empty or the best bid is below the best ask); so do
  \<open>add_order\<close> and \<open>amend_order\<close> when they are called with \<open>match_immediately\<close> and
  accept the call; \<open>cancel_order\<close> does not match, and leaves a book that was not
  crossed not crossed.
\<close>

theorem C2_no_cross_after_matching:
  assumes "reachable b"
  shows "(\<exists>b'. match_orders b = Some b' \<and> \<not> crossed b') \<and>
         (\<exists>r b'. add_order ord True now b = Some (r, b') \<and> (r = Returned () \<longrightarrow> \<not> crossed b')) \<and>
         (\<exists>r b'. amend_order k np nq True now b = Some (r, b') \<and>
                  (r = Returned True \<longrightarrow> \<not> crossed b')) \<and>
         (\<not> crossed b \<longrightarrow> \<not> crossed (snd (cancel_order k b)))"
proof -
  have wf: "wf_book b" by (rule reachable_wf [OF assms])
  have 1: "\<exists>b'. match_orders b = Some b' \<and> \<not> crossed b'"
    using process_matching_total [OF wf] by (auto simp: match_orders_def)
  have 2: "\<exists>r b'. add_order ord True now b = Some (r, b') \<and> (r = Returned () \<longrightarrow> \<not> crossed b')"
    using add_order_total [OF wf, of ord True now] by auto
  have 3: "\<exists>r b'. amend_order k np nq True now b = Some (r, b') \<and>
                  (r = Returned True \<longrightarrow> \<not> crossed b')"
    using amend_order_total [OF wf, of k np nq True now] by auto
  have 4: "\<not> crossed b \<longrightarrow> \<not> crossed (snd (cancel_order k b))"
    using cancel_order_not_crossed [OF wf] by blast
  from 1 2 3 4 show ?thesis by (intro conjI)
qed

text \<open>C2 on the crossed book holding the buy order 1 at 100 and the sell order 2 at 99:
  \<open>match_orders\<close> returns a book that is not crossed.\<close>

theorem C2_no_cross_after_matching_witness:
  "crossed (add_order_to_side sell_2 False (add_order_to_side buy_1 True empty_book)) \<and>
   (\<exists>b'. match_orders (add_order_to_side sell_2 False (add_order_to_side buy_1 True empty_book))
           = Some b' \<and> \<not> crossed b')"
proof -
  have "crossed (add_order_to_side sell_2 False (add_order_to_side buy_1 True empty_book))"
    by code_simp
  with C2_no_cross_after_matching [OF reachable_book_12] show ?thesis by blast
qed

text \<open>
  C2 as stated fails: two inserts with \<open>match_immediately = false\<close> (as in the test suite's
  large-scale test) leave a buy at 100 and a sell at 99 resting, a crossed book.
\<close>

theorem C2_unmatched_insert_counterexample:
  "add_order buy_1 False 0 empty_book =
     Some (Returned (), add_order_to_side buy_1 True empty_book) \<and>
   add_order sell_2 False 0 (add_order_to_side buy_1 True empty_book) =
     Some (Returned (), add_order_to_side sell_2 False (add_order_to_side buy_1 True empty_book)) \<and>
   bids (add_order_to_side sell_2 False (add_order_to_side buy_1 True empty_book)) \<noteq> [] \<and>
   asks (add_order_to_side sell_2 False (add_order_to_side buy_1 True empty_book)) \<noteq> [] \<and>
   get_best_bid (add_order_to_side sell_2 False (add_order_to_side buy_1 True empty_book)) = 100 \<and>
   get_best_ask (add_order_to_side sell_2 False (add_order_to_side buy_1 True empty_book)) = 99"
proof (intro conjI)
  show "add_order buy_1 False 0 empty_book =
     Some (Returned (), add_order_to_side buy_1 True empty_book)"
    by (simp add: add_order_def buy_1_def empty_book_def)
  show "add_order sell_2 False 0 (add_order_to_side buy_1 True empty_book) =
     Some (Returned (), add_order_to_side sell_2 False (add_order_to_side buy_1 True empty_book))"
    by (simp add: add_order_def book_1_eval sell_2_def)
  show "bids (add_order_to_side sell_2 False (add_order_to_side buy_1 True empty_book)) \<noteq> []"
    by code_simp
  show "asks (add_order_to_side sell_2 False (add_order_to_side buy_1 True empty_book)) \<noteq> []"
    by code_simp
  show "get_best_bid (add_order_to_side sell_2 False (add_order_to_side buy_1 True empty_book)) = 100"
    by code_simp
  show "get_best_ask (add_order_to_side sell_2 False (add_order_to_side buy_1 True empty_book)) = 99"
    by code_simp
qed

subsection \<open>C3: amending the price\<close>

text \<open>
  C3, as the code has it: in a reachable book, an amend of a resting order with a valid
  quantity and a price that passes the test of \<open>amend_order\<close> for a new price (the
  difference of the order's price and the new price, computed in \<^verbatim>\<open>double\<close>, is above
  the double \<^verbatim>\<open>1e-12\<close> in absolute value) is the
  cancel of the order (which succeeds) followed by \<open>add_order\<close> of the order with the new
  price and quantity, the same id and the same timestamp, which is accepted; the amend
  returns \<open>true\<close> with the book that \<open>add_order\<close> leaves. The order re-inserted keeps the
  timestamp of the order amended (the clock is read only if that timestamp is zero), and
  before any matching it is the last of the chain of the level at the new price. The two
  prices then differ by more than \<open>1 / 10 ^ 12\<close> (lemma \<open>price_changed_exceeds\<close>); a
  difference above \<open>1 / 10 ^ 12\<close> that rounds to the double \<^verbatim>\<open>1e-12\<close> does not pass the
  test.
\<close>

theorem C3_amend_reprice:
  assumes "reachable b" and "order_lookup b k = Some ord"
    and "nq \<noteq> 0" and "0 < np" and "price_changed ord np"
  shows "fst (cancel_order k b) = True \<and>
         (\<exists>b'. add_order (ord\<lparr>price := np, quantity := nq\<rparr>) m now (snd (cancel_order k b)) =
                  Some (Returned (), b') \<and>
                amend_order k np nq m now b = Some (Returned True, b')) \<and>
         (\<exists>b1 l. amend_order k np nq False now b = Some (Returned True, b1) \<and>
                order_lookup b1 k =
                  Some (ord\<lparr>price := np, quantity := nq,
                           timestamp_ns := (if timestamp_ns ord = 0 then now
                                            else timestamp_ns ord)\<rparr>) \<and>
                side_find np (side_of (is_buy ord) b1) = Some l \<and>
                fifo l \<noteq> [] \<and> last (fifo l) = k \<and>
                fifo l = (case side_find np (side_of (is_buy ord) (snd (cancel_order k b))) of
                            None \<Rightarrow> [] | Some l0 \<Rightarrow> fifo l0) @ [k])"
proof -
  have wf: "wf_book b" by (rule reachable_wf [OF assms(1)])
  note ch = assms(5)
  let ?new = "ord\<lparr>price := np, quantity := nq\<rparr>"
  let ?b0 = "snd (cancel_order k b)"
  note rp = amend_order_reprice [OF wf assms(2,3,4) ch]
  have wf0: "wf_book ?b0" by (rule wf_cancel_order [OF wf])
  have id: "order_id ord = k" by (rule wf_order_id [OF wf assms(2)])
  from add_order_accepted_Returned [OF wf0 rp(2), of m now] obtain b' where
    b': "add_order ?new m now ?b0 = Some (Returned (), b')" by blast
  have 2: "\<exists>b'. add_order ?new m now ?b0 = Some (Returned (), b') \<and>
                amend_order k np nq m now b = Some (Returned True, b')"
    using b' by (simp add: rp(3))
  let ?b1 = "add_order_to_side (stamped ?new now) (is_buy ?new) ?b0"
  have a1: "amend_order k np nq False now b = Some (Returned True, ?b1)"
    by (simp add: rp(3) add_order_placed [OF rp(2)])
  have st: "stamped ?new now =
              ord\<lparr>price := np, quantity := nq,
                   timestamp_ns := (if timestamp_ns ord = 0 then now else timestamp_ns ord)\<rparr>"
    by (simp add: stamped_def)
  have lk1: "order_lookup ?b1 k = Some (stamped ?new now)"
    by (simp add: add_order_to_side_lookup stamped_fields id)
  from placed_tail [OF wf_sorted [OF wf0], of "stamped ?new now" "is_buy ?new"]
  obtain l where l: "side_find np (side_of (is_buy ord) ?b1) = Some l"
    "fifo l \<noteq> []" "last (fifo l) = k"
    "fifo l = (case side_find np (side_of (is_buy ord) ?b0) of
                 None \<Rightarrow> [] | Some l0 \<Rightarrow> fifo l0) @ [k]"
    by (auto simp: stamped_fields id)
  have 3: "\<exists>b1 l. amend_order k np nq False now b = Some (Returned True, b1) \<and>
                order_lookup b1 k =
                  Some (ord\<lparr>price := np, quantity := nq,
                           timestamp_ns := (if timestamp_ns ord = 0 then now
                                            else timestamp_ns ord)\<rparr>) \<and>
                side_find np (side_of (is_buy ord) b1) = Some l \<and>
                fifo l \<noteq> [] \<and> last (fifo l) = k \<and>
                fifo l = (case side_find np (side_of (is_buy ord) ?b0) of
                            None \<Rightarrow> [] | Some l0 \<Rightarrow> fifo l0) @ [k]"
    using a1 lk1 l unfolding st by blast
  from rp(1) 2 3 show ?thesis by (intro conjI)
qed

text \<open>
  C3 on the book holding buy 1 and buy 2 at 100.0: amending 1 to 101.0 succeeds.
\<close>

theorem C3_amend_reprice_witness:
  "fst (cancel_order 1 (add_order_to_side buy_2 True (add_order_to_side buy_1 True empty_book)))
     = True \<and>
   (\<exists>b1 l. amend_order 1 101 100 False 999
             (add_order_to_side buy_2 True (add_order_to_side buy_1 True empty_book)) =
             Some (Returned True, b1) \<and>
           order_lookup b1 1 = Some (buy_1\<lparr>price := 101\<rparr>) \<and>
           side_find 101 (bids b1) = Some l \<and> last (fifo l) = 1)"
proof -
  let ?b = "add_order_to_side buy_2 True (add_order_to_side buy_1 True empty_book)"
  have lk: "order_lookup ?b 1 = Some buy_1" by (simp add: book_1_2_eval)
  have d: "double_sub 100 101 = - 1" by code_simp
  have eps: "price_changed buy_1 101"
    unfolding price_changed_def buy_1_fields d using epsilon_less_one by simp
  from C3_amend_reprice [OF reachable_book_1_2 lk _ _ eps, of 100 True 999]
  have c: "fst (cancel_order 1 ?b) = True"
    and "\<exists>b1 l. amend_order 1 101 100 False 999 ?b = Some (Returned True, b1) \<and>
                order_lookup b1 1 =
                  Some (buy_1\<lparr>price := 101, quantity := 100,
                           timestamp_ns := (if timestamp_ns buy_1 = 0 then 999
                                            else timestamp_ns buy_1)\<rparr>) \<and>
                side_find 101 (side_of (is_buy buy_1) b1) = Some l \<and>
                fifo l \<noteq> [] \<and> last (fifo l) = 1 \<and>
                fifo l = (case side_find 101 (side_of (is_buy buy_1) (snd (cancel_order 1 ?b))) of
                            None \<Rightarrow> [] | Some l0 \<Rightarrow> fifo l0) @ [1]"
    by simp_all
  then obtain b1 l where
    "amend_order 1 101 100 False 999 ?b = Some (Returned True, b1)"
    "order_lookup b1 1 =
                  Some (buy_1\<lparr>price := 101, quantity := 100,
                           timestamp_ns := (if timestamp_ns buy_1 = 0 then 999
                                            else timestamp_ns buy_1)\<rparr>)"
    "side_find 101 (side_of (is_buy buy_1) b1) = Some l" "last (fifo l) = 1"
    by blast
  moreover have "buy_1\<lparr>price := 101, quantity := 100,
                           timestamp_ns := (if timestamp_ns buy_1 = 0 then 999
                                            else timestamp_ns buy_1)\<rparr> = buy_1\<lparr>price := 101\<rparr>"
    by (simp add: buy_1_def)
  ultimately have "\<exists>b1 l. amend_order 1 101 100 False 999 ?b = Some (Returned True, b1) \<and>
           order_lookup b1 1 = Some (buy_1\<lparr>price := 101\<rparr>) \<and>
           side_find 101 (bids b1) = Some l \<and> last (fifo l) = 1"
    by (simp add: side_of_def buy_1_fields)
  with c show ?thesis by (intro conjI)
qed

text \<open>
  C3 as stated fails on the timestamp: buy 1 was inserted with timestamp 1; after the
  amend to 101.0, made when the clock shows 999, the order printed still has timestamp
  1.
\<close>

theorem C3_timestamp_counterexample:
  "print_order 1 (add_order_to_side buy_1 True empty_book) =
     Some \<lparr>order_id = 1, is_buy = True, price = 100, quantity = 100, timestamp_ns = 1\<rparr> \<and>
   map_option fst (amend_order 1 101 100 True 999 (add_order_to_side buy_1 True empty_book)) =
     Some (Returned True) \<and>
   map_option (print_order 1 \<circ> snd)
     (amend_order 1 101 100 True 999 (add_order_to_side buy_1 True empty_book)) =
     Some (Some \<lparr>order_id = 1, is_buy = True, price = 101, quantity = 100, timestamp_ns = 1\<rparr>)"
  by code_simp

subsection \<open>C4: the aggregate of a level\<close>

text \<open>
  C4, as the code has it: in every book reached from the empty book by inserts, cancels,
  amends and match calls none of which overflows the 64-bit aggregate of the level that
  receives the quantity, the \<open>total_quantity\<close> of every level of either side is the sum
  of the quantities of the orders in the chain of the level.
\<close>

theorem C4_aggregate_is_sum:
  assumes "reachable_no_overflow b"
  shows "aggregates_exact b"
  using assms
proof (induction rule: reachable_no_overflow.induct)
  case start
  show ?case by (rule aggregates_empty_book)
next
  case (add_fits b ord m now r b')
  from aggregates_add_order [OF reachable_wf [OF reachable_no_overflow_reachable [OF add_fits.hyps(1)]]
      add_fits.IH add_fits.hyps(2,3)]
  show ?case .
next
  case (cancel_fits b k r b')
  from aggregates_cancel_order [OF reachable_wf [OF reachable_no_overflow_reachable [OF cancel_fits.hyps(1)]]
      cancel_fits.IH, of k] cancel_fits.hyps(2)
  show ?case by simp
next
  case (amend_fits b k p q m now r b')
  from aggregates_amend_order [OF reachable_wf [OF reachable_no_overflow_reachable [OF amend_fits.hyps(1)]]
      amend_fits.IH amend_fits.hyps(2,3)]
  show ?case .
next
  case (match_fits b b')
  from process_matching_aggregates [OF reachable_wf [OF reachable_no_overflow_reachable [OF match_fits.hyps(1)]]
      match_fits.IH] match_fits.hyps(2)
  show ?case by (auto simp: match_orders_def)
qed

text \<open>C4 on the book holding buy 1 (100 at 100.0) and buy 2 (200 at 100.0): the aggregate
  is 300.\<close>

theorem C4_aggregate_is_sum_witness:
  "aggregates_exact (add_order_to_side buy_2 True (add_order_to_side buy_1 True empty_book)) \<and>
   get_snapshot 5 (add_order_to_side buy_2 True (add_order_to_side buy_1 True empty_book)) =
     ([(100, 300)], [])"
proof
  show "aggregates_exact (add_order_to_side buy_2 True (add_order_to_side buy_1 True empty_book))"
    by (rule C4_aggregate_is_sum [OF reachable_no_overflow_book_1_2])
  show "get_snapshot 5 (add_order_to_side buy_2 True (add_order_to_side buy_1 True empty_book)) =
     ([(100, 300)], [])"
    by (simp add: get_snapshot_def book_1_2_eval)
qed

text \<open>
  C4 as stated fails when an aggregate overflows: a buy of \<open>2 ^ 64 - 1\<close> and a buy of 2 at
  the same price make the 64-bit aggregate wrap to 1; cancelling the first then finds the
  aggregate below the order's quantity and sets it to 0, while the order of quantity 2
  still rests in the level.
\<close>

theorem C4_overflow_counterexample:
  "big_1 = \<lparr>order_id = 1, is_buy = True, price = 100, quantity = 18446744073709551615,
            timestamp_ns = 1\<rparr> \<and>
   small_2 = \<lparr>order_id = 2, is_buy = True, price = 100, quantity = 2, timestamp_ns = 2\<rparr> \<and>
   add_order big_1 True 0 empty_book =
     Some (Returned (), add_order_to_side big_1 True empty_book) \<and>
   add_order small_2 True 0 (add_order_to_side big_1 True empty_book) =
     Some (Returned (), add_order_to_side small_2 True (add_order_to_side big_1 True empty_book)) \<and>
   get_snapshot 5 (add_order_to_side small_2 True (add_order_to_side big_1 True empty_book)) =
     ([(100, 1)], []) \<and>
   fst (cancel_order 1 (add_order_to_side small_2 True (add_order_to_side big_1 True empty_book)))
     = True \<and>
   bids (snd (cancel_order 1
     (add_order_to_side small_2 True (add_order_to_side big_1 True empty_book)))) =
     [(100, \<lparr>total_quantity = 0, fifo = [2]\<rparr>)] \<and>
   print_order 2 (snd (cancel_order 1
     (add_order_to_side small_2 True (add_order_to_side big_1 True empty_book)))) =
     Some small_2 \<and>
   \<not> aggregates_exact (snd (cancel_order 1
     (add_order_to_side small_2 True (add_order_to_side big_1 True empty_book))))"
proof (intro conjI)
  show "big_1 = \<lparr>order_id = 1, is_buy = True, price = 100, quantity = 18446744073709551615,
            timestamp_ns = 1\<rparr>"
    by (simp add: big_1_def)
  show "small_2 = \<lparr>order_id = 2, is_buy = True, price = 100, quantity = 2, timestamp_ns = 2\<rparr>"
    by (simp add: small_2_def)
  have a1: "accepted big_1 empty_book" by code_simp
  have s1: "stamped big_1 0 = big_1" "is_buy big_1" by (simp_all add: stamped_def big_1_def)
  have c1: "\<not> crossed (add_order_to_side big_1 True empty_book)" by code_simp
  show "add_order big_1 True 0 empty_book =
     Some (Returned (), add_order_to_side big_1 True empty_book)"
    using add_order_uncrossed [OF a1, of 0] c1 by (simp add: s1)
  have a2: "accepted small_2 (add_order_to_side big_1 True empty_book)" by code_simp
  have s2: "stamped small_2 0 = small_2" "is_buy small_2" by (simp_all add: stamped_def small_2_def)
  have c2: "\<not> crossed (add_order_to_side small_2 True (add_order_to_side big_1 True empty_book))"
    by code_simp
  show "add_order small_2 True 0 (add_order_to_side big_1 True empty_book) =
     Some (Returned (), add_order_to_side small_2 True (add_order_to_side big_1 True empty_book))"
    using add_order_uncrossed [OF a2, of 0] c2 by (simp add: s2)
  show "get_snapshot 5 (add_order_to_side small_2 True (add_order_to_side big_1 True empty_book)) =
     ([(100, 1)], [])"
    by code_simp
  show "fst (cancel_order 1 (add_order_to_side small_2 True (add_order_to_side big_1 True empty_book)))
     = True"
    by code_simp
  show "bids (snd (cancel_order 1
     (add_order_to_side small_2 True (add_order_to_side big_1 True empty_book)))) =
     [(100, \<lparr>total_quantity = 0, fifo = [2]\<rparr>)]"
    by code_simp
  show "print_order 2 (snd (cancel_order 1
     (add_order_to_side small_2 True (add_order_to_side big_1 True empty_book)))) =
     Some small_2"
    by code_simp
  show "\<not> aggregates_exact (snd (cancel_order 1
     (add_order_to_side small_2 True (add_order_to_side big_1 True empty_book))))"
    by code_simp
qed

subsection \<open>C5: the order index and the sides\<close>

text \<open>
  C5: in every reachable book an id has an entry in \<open>order_lookup\<close> if and only if it is
  linked in the chain of some level of the bid or ask side; every node linked in a
  chain holds the order with that id; and no node is linked twice.
\<close>

theorem C5_index_matches_sides:
  assumes "reachable b"
  shows "(order_exists i b \<longleftrightarrow> i \<in> set (resting_ids b)) \<and>
         (\<forall>k\<in>set (resting_ids b). map_option order_id (order_lookup b k) = Some k) \<and>
         distinct (resting_ids b)"
proof -
  have wf: "wf_book b" by (rule reachable_wf [OF assms])
  have 1: "order_exists i b \<longleftrightarrow> i \<in> set (resting_ids b)"
    by (simp add: order_exists_def wf_resting_ids [OF wf])
  have 2: "\<forall>k\<in>set (resting_ids b). map_option order_id (order_lookup b k) = Some k"
  proof
    fix k assume "k \<in> set (resting_ids b)"
    then obtain ord where lk: "order_lookup b k = Some ord"
      using wf_resting_ids [OF wf, of k] by auto
    from wf_order_id [OF wf lk] lk show "map_option order_id (order_lookup b k) = Some k" by simp
  qed
  have 3: "distinct (resting_ids b)" by (rule wf_distinct_resting_ids [OF wf])
  from 1 2 3 show ?thesis by (intro conjI)
qed

text \<open>C5 on the book holding the buy order 1.\<close>

theorem C5_index_matches_sides_witness:
  "order_exists 1 (add_order_to_side buy_1 True empty_book) \<and>
   resting_ids (add_order_to_side buy_1 True empty_book) = [1] \<and>
   \<not> order_exists 2 (add_order_to_side buy_1 True empty_book) \<and>
   map_option order_id (order_lookup (add_order_to_side buy_1 True empty_book) 1) = Some 1"
proof -
  let ?b = "add_order_to_side buy_1 True empty_book"
  have r: "resting_ids ?b = [1]" by (simp add: resting_ids_def book_1_eval)
  from C5_index_matches_sides [OF reachable_book_1, of 1] C5_index_matches_sides [OF reachable_book_1, of 2] r
  show ?thesis by simp
qed

subsection \<open>C6: rejected operations\<close>

text \<open>
  C6: every rejected operation leaves the book as it was. An insert whose id is already
  indexed throws (\<open>DuplicateId\<close>); otherwise a zero quantity throws (\<open>InvalidQuantity\<close>);
  otherwise a price that is not positive throws (\<open>InvalidPrice\<close>). An amend of an indexed
  id throws on a zero quantity and then on a non-positive price. Cancel and amend of an
  id that is not indexed return \<open>false\<close>. In each case the book returned is the book
  passed in, and, in any reachable book, whenever one of the three operations throws or
  returns \<open>false\<close> the book is unchanged.
\<close>

theorem C6_rejected_is_noop:
  assumes "reachable b"
  shows
   "(order_lookup b (order_id ord) \<noteq> None \<longrightarrow>
       add_order ord m now b = Some (Thrown (DuplicateId (order_id ord)), b)) \<and>
    (order_lookup b (order_id ord) = None \<and> quantity ord = 0 \<longrightarrow>
       add_order ord m now b = Some (Thrown InvalidQuantity, b)) \<and>
    (order_lookup b (order_id ord) = None \<and> quantity ord \<noteq> 0 \<and> price ord \<le> 0 \<longrightarrow>
       add_order ord m now b = Some (Thrown (InvalidPrice (price ord)), b)) \<and>
    (order_lookup b k \<noteq> None \<and> nq = 0 \<longrightarrow>
       amend_order k np nq m now b = Some (Thrown InvalidQuantity, b)) \<and>
    (order_lookup b k \<noteq> None \<and> nq \<noteq> 0 \<and> np \<le> 0 \<longrightarrow>
       amend_order k np nq m now b = Some (Thrown (InvalidPrice np), b)) \<and>
    (order_lookup b k = None \<longrightarrow>
       amend_order k np nq m now b = Some (Returned False, b) \<and> cancel_order k b = (False, b)) \<and>
    (\<forall>e b'. add_order ord m now b = Some (Thrown e, b') \<longrightarrow> b' = b) \<and>
    (\<forall>e b'. amend_order k np nq m now b = Some (Thrown e, b') \<longrightarrow> b' = b) \<and>
    (\<forall>b'. amend_order k np nq m now b = Some (Returned False, b') \<longrightarrow> b' = b) \<and>
    (\<forall>b'. cancel_order k b = (False, b') \<longrightarrow> b' = b)"
proof -
  have wf: "wf_book b" by (rule reachable_wf [OF assms])
  have a1: "order_lookup b (order_id ord) \<noteq> None \<longrightarrow>
       add_order ord m now b = Some (Thrown (DuplicateId (order_id ord)), b)"
    by (simp add: add_order_def)
  have a2: "order_lookup b (order_id ord) = None \<and> quantity ord = 0 \<longrightarrow>
       add_order ord m now b = Some (Thrown InvalidQuantity, b)"
    by (simp add: add_order_def)
  have a3: "order_lookup b (order_id ord) = None \<and> quantity ord \<noteq> 0 \<and> price ord \<le> 0 \<longrightarrow>
       add_order ord m now b = Some (Thrown (InvalidPrice (price ord)), b)"
    by (simp add: add_order_def)
  have m1: "order_lookup b k \<noteq> None \<and> nq = 0 \<longrightarrow>
       amend_order k np nq m now b = Some (Thrown InvalidQuantity, b)"
    by (auto simp: amend_order_zero)
  have m2: "order_lookup b k \<noteq> None \<and> nq \<noteq> 0 \<and> np \<le> 0 \<longrightarrow>
       amend_order k np nq m now b = Some (Thrown (InvalidPrice np), b)"
    by (auto simp: amend_order_bad_price)
  have u: "order_lookup b k = None \<longrightarrow>
       amend_order k np nq m now b = Some (Returned False, b) \<and> cancel_order k b = (False, b)"
    by (simp add: amend_order_absent cancel_order_absent)
  have n1: "\<forall>e b'. add_order ord m now b = Some (Thrown e, b') \<longrightarrow> b' = b"
    using add_order_Thrown_unchanged [OF wf] by blast
  have n2: "\<forall>e b'. amend_order k np nq m now b = Some (Thrown e, b') \<longrightarrow> b' = b"
    using amend_order_outcomes [OF wf, of k np nq m now] by auto
  have n3: "\<forall>b'. amend_order k np nq m now b = Some (Returned False, b') \<longrightarrow> b' = b"
    using amend_order_outcomes [OF wf, of k np nq m now] by auto
  have n4: "\<forall>b'. cancel_order k b = (False, b') \<longrightarrow> b' = b"
    using cancel_order_False_unchanged [OF wf] by blast
  from a1 a2 a3 m1 m2 u n1 n2 n3 n4 show ?thesis by (intro conjI)
qed

text \<open>C6 on the book holding the buy order 1: a duplicate insert, two invalid amends, and
  an amend and a cancel of the unknown id 7.\<close>

theorem C6_rejected_is_noop_witness:
  "add_order buy_1 True 0 (add_order_to_side buy_1 True empty_book) =
     Some (Thrown (DuplicateId 1), add_order_to_side buy_1 True empty_book) \<and>
   amend_order 1 100 0 True 0 (add_order_to_side buy_1 True empty_book) =
     Some (Thrown InvalidQuantity, add_order_to_side buy_1 True empty_book) \<and>
   amend_order 1 0 5 True 0 (add_order_to_side buy_1 True empty_book) =
     Some (Thrown (InvalidPrice 0), add_order_to_side buy_1 True empty_book) \<and>
   amend_order 7 100 5 True 0 (add_order_to_side buy_1 True empty_book) =
     Some (Returned False, add_order_to_side buy_1 True empty_book) \<and>
   cancel_order 7 (add_order_to_side buy_1 True empty_book) =
     (False, add_order_to_side buy_1 True empty_book)"
proof -
  let ?b = "add_order_to_side buy_1 True empty_book"
  have l1: "order_lookup ?b (order_id buy_1) \<noteq> None" "order_lookup ?b 1 \<noteq> None"
    by (simp_all add: add_order_to_side_lookup buy_1_def)
  have l7: "order_lookup ?b 7 = None"
    by (simp add: add_order_to_side_lookup buy_1_def empty_book_def)
  have id: "order_id buy_1 = 1" by (simp add: buy_1_def)
  from C6_rejected_is_noop [OF reachable_book_1, where ord = buy_1 and m = True and now = 0 and k = 1 and nq = 0 and np = 100] l1
  have "add_order buy_1 True 0 ?b = Some (Thrown (DuplicateId 1), ?b)"
       "amend_order 1 100 0 True 0 ?b = Some (Thrown InvalidQuantity, ?b)"
    by (simp_all add: id)
  moreover from C6_rejected_is_noop [OF reachable_book_1, where ord = buy_1 and m = True and now = 0 and k = 1 and nq = 5 and np = 0] l1
  have "amend_order 1 0 5 True 0 ?b = Some (Thrown (InvalidPrice 0), ?b)" by simp
  moreover from C6_rejected_is_noop [OF reachable_book_1, where ord = buy_1 and m = True and now = 0 and k = 7 and nq = 5 and np = 100] l7
  have "amend_order 7 100 5 True 0 ?b = Some (Returned False, ?b)" "cancel_order 7 ?b = (False, ?b)"
    by simp_all
  ultimately show ?thesis by (intro conjI)
qed

subsection \<open>C7: amending the quantity at an unchanged price\<close>

text \<open>
  C7, as the code has it: in a reachable book, an amend of a resting order with a valid
  quantity and a price that does not pass the test of \<open>amend_order\<close> for a new price (the
  difference of the order's price and the new price, computed in \<^verbatim>\<open>double\<close>, is not
  above the double \<^verbatim>\<open>1e-12\<close> in absolute value; every price within \<open>1 / 10 ^ 12\<close> of
  the order's price is such a price, lemma \<open>within_epsilon_unchanged\<close>), called with
  \<open>match_immediately = false\<close> or on a book that is not crossed, returns \<open>true\<close> and
  changes two things only: the order's quantity, and the aggregate of the order's level,
  to which the difference of the new and the old quantity is added (modulo \<open>2 ^ 64\<close>).
  The level's chain, the order's other fields, every other index entry, every other
  level, the other side, the statistics and the trades printed are unchanged.
\<close>

theorem C7_amend_in_place:
  assumes "reachable b" and "order_lookup b k = Some ord"
    and "nq \<noteq> 0" and "0 < np" and "\<not> price_changed ord np"
    and "\<not> m \<or> \<not> crossed b"
  shows "\<exists>b' l. amend_order k np nq m now b = Some (Returned True, b') \<and>
           side_find (price ord) (side_of (is_buy ord) b) = Some l \<and> k \<in> set (fifo l) \<and>
           order_lookup b' = (order_lookup b)(k \<mapsto> ord\<lparr>quantity := nq\<rparr>) \<and>
           side_of (is_buy ord) b' =
             side_modify (price ord)
               (\<lambda>x. x\<lparr>total_quantity := total_quantity x + (nq - quantity ord)\<rparr>)
               (side_of (is_buy ord) b) \<and>
           side_find (price ord) (side_of (is_buy ord) b') =
             Some (l\<lparr>total_quantity := total_quantity l + (nq - quantity ord)\<rparr>) \<and>
           (\<forall>q. q \<noteq> price ord \<longrightarrow>
              side_find q (side_of (is_buy ord) b') = side_find q (side_of (is_buy ord) b)) \<and>
           side_of (\<not> is_buy ord) b' = side_of (\<not> is_buy ord) b \<and>
           total_trades b' = total_trades b \<and> total_volume b' = total_volume b \<and>
           trade_log b' = trade_log b"
proof -
  have wf: "wf_book b" by (rule reachable_wf [OF assms(1)])
  note nch = assms(5)
  from wf_indexed [OF wf assms(2)] obtain l where
    l: "side_find (price ord) (side_of (is_buy ord) b) = Some l" "k \<in> set (fifo l)" by blast
  let ?b' = "resized k ord nq b"
  have "process_matching ?b' = Some ?b'" if m
    using that assms(6) by (simp add: process_matching_not_crossed crossed_resized)
  then have a: "amend_order k np nq m now b = Some (Returned True, ?b')"
    by (simp add: amend_order_inplace [OF assms(2,3,4) nch])
  have f: "side_find q (side_of (is_buy ord) ?b') =
             (if q = price ord then Some (l\<lparr>total_quantity := total_quantity l + (nq - quantity ord)\<rparr>)
              else side_find q (side_of (is_buy ord) b))" for q
    using l(1) by (simp add: resized_fields find_side_modify)
  show ?thesis
    using a l f by (intro exI [of _ ?b'] exI [of _ l]) (simp add: resized_fields)
qed

text \<open>
  C7 on the test suite's amend test: buy 1 (100 at 100.0) and buy 2 (200 at 100.0) rest;
  amending 1 to 500 at 100.0 makes the aggregate 700 and leaves 1 ahead of 2 in the chain.
\<close>

theorem C7_amend_in_place_witness:
  "\<exists>b'. amend_order 1 100 500 True 0
          (add_order_to_side buy_2 True (add_order_to_side buy_1 True empty_book)) =
          Some (Returned True, b') \<and>
        side_find 100 (bids b') = Some \<lparr>total_quantity = 700, fifo = [1, 2]\<rparr> \<and>
        get_snapshot 5 b' = ([(100, 700)], []) \<and>
        order_lookup b' 1 = Some (buy_1\<lparr>quantity := 500\<rparr>) \<and>
        order_lookup b' 2 = Some buy_2"
proof -
  let ?b = "add_order_to_side buy_2 True (add_order_to_side buy_1 True empty_book)"
  have lk: "order_lookup ?b 1 = Some buy_1" by (simp add: book_1_2_eval)
  have nc: "\<not> True \<or> \<not> crossed ?b" by (simp add: crossed_def book_1_2_eval)
  have eps: "\<not> price_changed buy_1 100"
    by (rule within_epsilon_unchanged) (simp add: buy_1_fields)
  from C7_amend_in_place [OF reachable_book_1_2 lk _ _ eps nc, of 500 0]
  obtain b' l where
    a: "amend_order 1 100 500 True 0 ?b = Some (Returned True, b')"
    and l: "side_find (price buy_1) (side_of (is_buy buy_1) ?b) = Some l"
    and lk': "order_lookup b' = (order_lookup ?b)(1 \<mapsto> buy_1\<lparr>quantity := 500\<rparr>)"
    and s: "side_of (is_buy buy_1) b' =
             side_modify (price buy_1)
               (\<lambda>x. x\<lparr>total_quantity := total_quantity x + (500 - quantity buy_1)\<rparr>)
               (side_of (is_buy buy_1) ?b)"
    and o: "side_of (\<not> is_buy buy_1) b' = side_of (\<not> is_buy buy_1) ?b"
    by auto
  from s have bids': "bids b' = [(100, \<lparr>total_quantity = 700, fifo = [1, 2]\<rparr>)]"
    by (simp add: side_of_def buy_1_fields book_1_2_eval side_modify_def)
  from o have asks': "asks b' = []"
    by (simp add: side_of_def buy_1_fields book_1_2_eval)
  have "side_find 100 (bids b') = Some \<lparr>total_quantity = 700, fifo = [1, 2]\<rparr>"
    by (simp add: bids' side_find_def)
  moreover have "get_snapshot 5 b' = ([(100, 700)], [])"
    by (simp add: get_snapshot_def bids' asks')
  moreover have "order_lookup b' 1 = Some (buy_1\<lparr>quantity := 500\<rparr>)" "order_lookup b' 2 = Some buy_2"
    by (simp_all add: lk' book_1_2_eval)
  ultimately show ?thesis using a by blast
qed

text \<open>
  C7 as stated fails when the amend is called with \<open>match_immediately = true\<close> on a crossed
  book: with buy 1 (100 at 100.0) and sell 2 (50 at 99.0) resting unmatched, amending 1
  to 500 at the unchanged price 100.0 matches afterwards, so that the sell order and its
  level are gone and the bid aggregate is 450.
\<close>

theorem C7_matching_counterexample:
  "map_option fst (amend_order 1 100 500 True 0
      (add_order_to_side sell_2 False (add_order_to_side buy_1 True empty_book))) =
     Some (Returned True) \<and>
   print_order 2 (add_order_to_side sell_2 False (add_order_to_side buy_1 True empty_book)) =
     Some sell_2 \<and>
   map_option (print_order 2 \<circ> snd) (amend_order 1 100 500 True 0
      (add_order_to_side sell_2 False (add_order_to_side buy_1 True empty_book))) = Some None \<and>
   map_option (get_snapshot 5 \<circ> snd) (amend_order 1 100 500 True 0
      (add_order_to_side sell_2 False (add_order_to_side buy_1 True empty_book))) =
     Some ([(100, 450)], [])"
  by code_simp

subsection \<open>C8: time priority within a level\<close>

text \<open>
  C8: in a reachable book, (1) an accepted insert links the order at the tail of the chain
  of the level at its price; (2) an iteration of the matching loop trades the two orders
  at the heads of the chains of the first bid level, which has the highest bid price, and
  of the first ask level, which has the lowest ask price, and no other; (3) over a whole run of the matching loop, started by \<open>match_orders\<close> or by an
  insert or amend with \<open>match_immediately = true\<close>, an order of a level is touched only
  when every order ahead of it in the chain of the level has been filled and removed.
\<close>

theorem C8_fifo_within_level:
  assumes "reachable b"
  shows
   "(order_lookup b (order_id ord) = None \<and> quantity ord \<noteq> 0 \<and> 0 < price ord \<longrightarrow>
       (\<exists>b1 l. add_order ord False now b = Some (Returned (), b1) \<and>
          side_find (price ord) (side_of (is_buy ord) b1) = Some l \<and>
          fifo l = chain_at (is_buy ord) (price ord) b @ [order_id ord])) \<and>
    process_matching b =
      (case next_iteration b of
         Stop \<Rightarrow> Some b
       | Undefined \<Rightarrow> None
       | Cross bo so \<Rightarrow>
           process_matching (execute_trade bo so (min (quantity bo) (quantity so)) b)) \<and>
    (\<forall>bo so. next_iteration b = Cross bo so \<longrightarrow>
       (\<exists>bl rb al ra. bids b = (price bo, bl) # rb \<and> asks b = (price so, al) # ra \<and>
          (\<forall>e\<in>set rb. fst e < price bo) \<and> (\<forall>e\<in>set ra. price so < fst e) \<and>
          fifo bl \<noteq> [] \<and> hd (fifo bl) = order_id bo \<and>
          fifo al \<noteq> [] \<and> hd (fifo al) = order_id so \<and>
          order_lookup b (order_id bo) = Some bo \<and> order_lookup b (order_id so) = Some so)) \<and>
    (\<exists>b'. match_orders b = Some b' \<and> fifo_respected b b') \<and>
    (\<exists>r b1 b'. add_order ord False now b = Some (r, b1) \<and>
                add_order ord True now b = Some (r, b') \<and> fifo_respected b1 b') \<and>
    (\<exists>r b1 b'. amend_order k np nq False now b = Some (r, b1) \<and>
                amend_order k np nq True now b = Some (r, b') \<and> fifo_respected b1 b')"
proof -
  have wf: "wf_book b" by (rule reachable_wf [OF assms])
  have 1: "order_lookup b (order_id ord) = None \<and> quantity ord \<noteq> 0 \<and> 0 < price ord \<longrightarrow>
       (\<exists>b1 l. add_order ord False now b = Some (Returned (), b1) \<and>
          side_find (price ord) (side_of (is_buy ord) b1) = Some l \<and>
          fifo l = chain_at (is_buy ord) (price ord) b @ [order_id ord])"
  proof
    assume "order_lookup b (order_id ord) = None \<and> quantity ord \<noteq> 0 \<and> 0 < price ord"
    then have acc: "accepted ord b" by (simp add: accepted_def)
    from placed_tail [OF wf_sorted [OF wf], of "stamped ord now" "is_buy ord"]
    obtain l where
      "side_find (price ord)
         (side_of (is_buy ord) (add_order_to_side (stamped ord now) (is_buy ord) b)) = Some l"
      "fifo l = chain_at (is_buy ord) (price ord) b @ [order_id ord]"
      by (auto simp: stamped_fields chain_at_def)
    with add_order_placed [OF acc, of now] show
      "\<exists>b1 l. add_order ord False now b = Some (Returned (), b1) \<and>
          side_find (price ord) (side_of (is_buy ord) b1) = Some l \<and>
          fifo l = chain_at (is_buy ord) (price ord) b @ [order_id ord]" by blast
  qed
  have 2: "\<forall>bo so. next_iteration b = Cross bo so \<longrightarrow>
       (\<exists>bl rb al ra. bids b = (price bo, bl) # rb \<and> asks b = (price so, al) # ra \<and>
          (\<forall>e\<in>set rb. fst e < price bo) \<and> (\<forall>e\<in>set ra. price so < fst e) \<and>
          fifo bl \<noteq> [] \<and> hd (fifo bl) = order_id bo \<and>
          fifo al \<noteq> [] \<and> hd (fifo al) = order_id so \<and>
          order_lookup b (order_id bo) = Some bo \<and> order_lookup b (order_id so) = Some so)"
  proof (intro allI impI)
    fix bo so assume cr: "next_iteration b = Cross bo so"
    from wf_next_iteration [OF wf] cr obtain bl rb al ra rfb rfa where
      "bids b = (price bo, bl) # rb" "asks b = (price so, al) # ra"
      "fifo bl = order_id bo # rfb" "fifo al = order_id so # rfa"
      "order_lookup b (order_id bo) = Some bo" "order_lookup b (order_id so) = Some so"
      by (elim disjE exE conjE) simp_all
    moreover have "\<forall>e\<in>set rb. fst e < price bo" if "bids b = (price bo, bl) # rb"
      using wf_sorted [OF wf, of True] that
      by (auto simp: side_sorted_def side_of_def comparator_def)
    moreover have "\<forall>e\<in>set ra. price so < fst e" if "asks b = (price so, al) # ra"
      using wf_sorted [OF wf, of False] that
      by (auto simp: side_sorted_def side_of_def comparator_def)
    ultimately show "\<exists>bl rb al ra. bids b = (price bo, bl) # rb \<and> asks b = (price so, al) # ra \<and>
          (\<forall>e\<in>set rb. fst e < price bo) \<and> (\<forall>e\<in>set ra. price so < fst e) \<and>
          fifo bl \<noteq> [] \<and> hd (fifo bl) = order_id bo \<and>
          fifo al \<noteq> [] \<and> hd (fifo al) = order_id so \<and>
          order_lookup b (order_id bo) = Some bo \<and> order_lookup b (order_id so) = Some so"
      by (intro exI [of _ bl] exI [of _ rb] exI [of _ al] exI [of _ ra]) simp
  qed
  have 3: "\<exists>b'. match_orders b = Some b' \<and> fifo_respected b b'"
    using process_matching_fifo [OF wf] by (auto simp: match_orders_def)
  have 4: "\<exists>r b1 b'. add_order ord False now b = Some (r, b1) \<and>
                add_order ord True now b = Some (r, b') \<and> fifo_respected b1 b'"
  proof -
    from add_order_split [OF wf, of ord now] obtain r b1 where
      s: "add_order ord False now b = Some (r, b1)" "wf_book b1"
      "add_order ord True now b =
         (if r = Returned () then map_option (Pair r) (process_matching b1) else Some (r, b1))"
      by blast
    show ?thesis
    proof (cases "r = Returned ()")
      case True
      from process_matching_fifo [OF s(2)] obtain b' where
        "process_matching b1 = Some b'" "fifo_respected b1 b'" by blast
      with s True show ?thesis by auto
    next
      case False
      with s fifo_respected_refl [of b1] show ?thesis by auto
    qed
  qed
  have 5: "\<exists>r b1 b'. amend_order k np nq False now b = Some (r, b1) \<and>
                amend_order k np nq True now b = Some (r, b') \<and> fifo_respected b1 b'"
  proof -
    from amend_order_split [OF wf, of k np nq now] obtain r b1 where
      s: "amend_order k np nq False now b = Some (r, b1)" "wf_book b1"
      "amend_order k np nq True now b =
         (if r = Returned True then map_option (Pair r) (process_matching b1) else Some (r, b1))"
      by blast
    show ?thesis
    proof (cases "r = Returned True")
      case True
      from process_matching_fifo [OF s(2)] obtain b' where
        "process_matching b1 = Some b'" "fifo_respected b1 b'" by blast
      with s True show ?thesis by auto
    next
      case False
      with s fifo_respected_refl [of b1] show ?thesis by auto
    qed
  qed
  from 1 process_matching_unfold [of b] 2 3 4 5 show ?thesis by (intro conjI)
qed

text \<open>
  C8 on the book holding buy 1 (100 at 100.0) and buy 2 (200 at 100.0), in this order, and
  the sell order 3 (150 at 100.0): matching fills 1 completely before it touches 2.
\<close>

theorem C8_fifo_within_level_witness:
  "(\<exists>b'. match_orders (add_order_to_side sell_3 False
            (add_order_to_side buy_2 True (add_order_to_side buy_1 True empty_book))) = Some b' \<and>
         fifo_respected (add_order_to_side sell_3 False
            (add_order_to_side buy_2 True (add_order_to_side buy_1 True empty_book))) b') \<and>
   map_option trade_log (match_orders (add_order_to_side sell_3 False
            (add_order_to_side buy_2 True (add_order_to_side buy_1 True empty_book)))) =
     Some [\<lparr>trade_quantity = 100, trade_price = 100, buy_id = 1, sell_id = 3\<rparr>,
           \<lparr>trade_quantity = 50, trade_price = 100, buy_id = 2, sell_id = 3\<rparr>]"
proof
  show "\<exists>b'. match_orders (add_order_to_side sell_3 False
            (add_order_to_side buy_2 True (add_order_to_side buy_1 True empty_book))) = Some b' \<and>
         fifo_respected (add_order_to_side sell_3 False
            (add_order_to_side buy_2 True (add_order_to_side buy_1 True empty_book))) b'"
    using C8_fifo_within_level [OF reachable_book_1_2_3] by blast
  show "map_option trade_log (match_orders (add_order_to_side sell_3 False
            (add_order_to_side buy_2 True (add_order_to_side buy_1 True empty_book)))) =
     Some [\<lparr>trade_quantity = 100, trade_price = 100, buy_id = 1, sell_id = 3\<rparr>,
           \<lparr>trade_quantity = 50, trade_price = 100, buy_id = 2, sell_id = 3\<rparr>]"
    by code_simp
qed

subsection \<open>C9: cancel\<close>

text \<open>
  C9: in a reachable book, \<open>cancel_order\<close> of an id that is not indexed returns \<open>false\<close>
  and changes nothing. For an indexed id it returns \<open>true\<close>; the order is in the chain of
  the level at its price on its side and is unlinked from it; the level is erased when
  its chain becomes empty, and otherwise its aggregate is decreased by the order's
  quantity, or set to zero when the quantity exceeds it; the index entry is erased; the
  other side, the other index entries, \<open>total_trades\<close>, \<open>total_volume\<close> and the trades
  printed are unchanged, so no matching took place.
\<close>

theorem C9_cancel:
  assumes "reachable b"
  shows
   "(order_lookup b k = None \<longrightarrow> cancel_order k b = (False, b)) \<and>
    (\<forall>ord. order_lookup b k = Some ord \<longrightarrow>
       (\<exists>l b'. side_find (price ord) (side_of (is_buy ord) b) = Some l \<and>
          k \<in> set (fifo l) \<and> k \<notin> set (remove1 k (fifo l)) \<and>
          cancel_order k b = (True, b') \<and>
          order_lookup b' = (order_lookup b)(k := None) \<and>
          side_of (is_buy ord) b' =
            (if remove1 k (fifo l) = [] then side_erase (price ord) (side_of (is_buy ord) b)
             else side_modify (price ord)
                    (\<lambda>x. x\<lparr>total_quantity :=
                              (if quantity ord \<le> total_quantity l
                               then total_quantity l - quantity ord else 0),
                           fifo := remove1 k (fifo l)\<rparr>)
                    (side_of (is_buy ord) b)) \<and>
          side_of (\<not> is_buy ord) b' = side_of (\<not> is_buy ord) b \<and>
          total_trades b' = total_trades b \<and> total_volume b' = total_volume b \<and>
          trade_log b' = trade_log b))"
proof (intro conjI allI impI)
  assume "order_lookup b k = None"
  then show "cancel_order k b = (False, b)" by (rule cancel_order_absent)
next
  fix ord assume lk: "order_lookup b k = Some ord"
  have wf: "wf_book b" by (rule reachable_wf [OF assms])
  from wf_indexed [OF wf lk] obtain l where
    l: "side_find (price ord) (side_of (is_buy ord) b) = Some l" and kl: "k \<in> set (fifo l)"
    by blast
  have d: "k \<notin> set (remove1 k (fifo l))" using wf_level [OF wf l] by simp
  let ?b' = "snd (remove_order_from_side k (is_buy ord) b)"
  have c: "cancel_order k b = (True, ?b')"
    using remove_order_from_side_fst [OF lk l]
    by (simp add: cancel_order_present [OF lk] prod_eq_iff)
  have s: "side_of (is_buy ord) ?b' =
            (if remove1 k (fifo l) = [] then side_erase (price ord) (side_of (is_buy ord) b)
             else side_modify (price ord)
                    (\<lambda>x. x\<lparr>total_quantity :=
                              (if quantity ord \<le> total_quantity l
                               then total_quantity l - quantity ord else 0),
                           fifo := remove1 k (fifo l)\<rparr>)
                    (side_of (is_buy ord) b))"
    using lk l
    by (simp add: remove_order_from_side_def Let_def side_of_set_side side_of_lookup_update)
  show "\<exists>l b'. side_find (price ord) (side_of (is_buy ord) b) = Some l \<and>
          k \<in> set (fifo l) \<and> k \<notin> set (remove1 k (fifo l)) \<and>
          cancel_order k b = (True, b') \<and>
          order_lookup b' = (order_lookup b)(k := None) \<and>
          side_of (is_buy ord) b' =
            (if remove1 k (fifo l) = [] then side_erase (price ord) (side_of (is_buy ord) b)
             else side_modify (price ord)
                    (\<lambda>x. x\<lparr>total_quantity :=
                              (if quantity ord \<le> total_quantity l
                               then total_quantity l - quantity ord else 0),
                           fifo := remove1 k (fifo l)\<rparr>)
                    (side_of (is_buy ord) b)) \<and>
          side_of (\<not> is_buy ord) b' = side_of (\<not> is_buy ord) b \<and>
          total_trades b' = total_trades b \<and> total_volume b' = total_volume b \<and>
          trade_log b' = trade_log b"
    using l kl d c s remove_order_from_side_lookup [OF lk l]
      remove_order_from_side_other [of "\<not> is_buy ord" "is_buy ord" k b]
      remove_order_from_side_stats [of k "is_buy ord" b]
    by (intro exI [of _ l] exI [of _ ?b']) simp
qed

text \<open>C9 on the book holding the buy order 1: cancelling 7 and cancelling 1.\<close>

theorem C9_cancel_witness:
  "cancel_order 7 (add_order_to_side buy_1 True empty_book) =
     (False, add_order_to_side buy_1 True empty_book) \<and>
   fst (cancel_order 1 (add_order_to_side buy_1 True empty_book)) = True \<and>
   order_lookup (snd (cancel_order 1 (add_order_to_side buy_1 True empty_book))) 1 = None \<and>
   bids (snd (cancel_order 1 (add_order_to_side buy_1 True empty_book))) = []"
proof -
  let ?b = "add_order_to_side buy_1 True empty_book"
  have l7: "order_lookup ?b 7 = None" and l1: "order_lookup ?b 1 = Some buy_1"
    by (simp_all add: book_1_eval)
  from C9_cancel [OF reachable_book_1, of 7] l7 have c7: "cancel_order 7 ?b = (False, ?b)"
    by simp
  from C9_cancel [OF reachable_book_1, of 1] l1 obtain l b' where
    l: "side_find (price buy_1) (side_of (is_buy buy_1) ?b) = Some l"
    and c: "cancel_order 1 ?b = (True, b')"
    and lk: "order_lookup b' = (order_lookup ?b)(1 := None)"
    and s: "side_of (is_buy buy_1) b' =
            (if remove1 1 (fifo l) = [] then side_erase (price buy_1) (side_of (is_buy buy_1) ?b)
             else side_modify (price buy_1)
                    (\<lambda>x. x\<lparr>total_quantity :=
                              (if quantity buy_1 \<le> total_quantity l
                               then total_quantity l - quantity buy_1 else 0),
                           fifo := remove1 1 (fifo l)\<rparr>)
                    (side_of (is_buy buy_1) ?b))"
    by blast
  from l have "l = \<lparr>total_quantity = 100, fifo = [1]\<rparr>"
    by (simp add: side_find_def side_of_def book_1_eval buy_1_fields)
  with s have "bids b' = []"
    by (simp add: side_of_def book_1_eval buy_1_fields side_erase_def)
  with c7 c lk show ?thesis by simp
qed

subsection \<open>C10: the spread\<close>

text \<open>
  C10, as the code has it: in a reachable book, \<open>get_spread\<close> is the difference in
  \<^verbatim>\<open>double\<close> of \<open>get_best_ask\<close> and \<open>get_best_bid\<close>, that is, their exact difference
  rounded to a double: it is away from the exact difference by at most half the distance
  between neighbouring doubles there, and it is the exact difference when this is a
  double. \<open>get_best_bid\<close> is the price of a bid level and no bid level has a higher
  price; \<open>get_best_ask\<close> is the price of an ask level and no ask level has a lower price;
  each of the two is \<open>0\<close> for an empty side. So the spread is \<open>0\<close> when both sides are
  empty, the best ask when only the bid side is empty, and minus the best bid when only
  the ask side is empty (the prices being doubles).
\<close>

theorem C10_spread:
  assumes "reachable b"
  shows
   "get_spread b = double_sub (get_best_ask b) (get_best_bid b) \<and>
    \<bar>get_spread b - (get_best_ask b - get_best_bid b)\<bar>
       \<le> quantum \<bar>get_best_ask b - get_best_bid b\<bar> / 2 \<and>
    (is_double (get_best_ask b - get_best_bid b) \<longrightarrow>
       get_spread b = get_best_ask b - get_best_bid b) \<and>
    (bids b \<noteq> [] \<longrightarrow> (\<exists>e\<in>set (bids b). fst e = get_best_bid b) \<and>
                     (\<forall>e\<in>set (bids b). fst e \<le> get_best_bid b)) \<and>
    (asks b \<noteq> [] \<longrightarrow> (\<exists>e\<in>set (asks b). fst e = get_best_ask b) \<and>
                     (\<forall>e\<in>set (asks b). get_best_ask b \<le> fst e)) \<and>
    (bids b = [] \<longrightarrow> get_best_bid b = 0) \<and>
    (asks b = [] \<longrightarrow> get_best_ask b = 0) \<and>
    (bids b = [] \<and> asks b = [] \<longrightarrow> get_spread b = 0) \<and>
    (bids b = [] \<and> is_double (get_best_ask b) \<longrightarrow> get_spread b = get_best_ask b) \<and>
    (asks b = [] \<and> is_double (get_best_bid b) \<longrightarrow> get_spread b = - get_best_bid b)"
proof -
  have wf: "wf_book b" by (rule reachable_wf [OF assms])
  have 1: "get_spread b = double_sub (get_best_ask b) (get_best_bid b)"
    by (simp add: get_spread_def)
  have 2: "\<bar>get_spread b - (get_best_ask b - get_best_bid b)\<bar>
             \<le> quantum \<bar>get_best_ask b - get_best_bid b\<bar> / 2"
    unfolding 1 double_sub_def by (rule round_to_double_error)
  have 3: "is_double (get_best_ask b - get_best_bid b) \<longrightarrow>
             get_spread b = get_best_ask b - get_best_bid b"
    by (simp add: 1 double_sub_def is_double_def)
  have 4: "bids b \<noteq> [] \<longrightarrow> (\<exists>e\<in>set (bids b). fst e = get_best_bid b) \<and>
                     (\<forall>e\<in>set (bids b). fst e \<le> get_best_bid b)"
    using best_bid_is_level [of b] best_bid_greatest [OF wf] by blast
  have 5: "asks b \<noteq> [] \<longrightarrow> (\<exists>e\<in>set (asks b). fst e = get_best_ask b) \<and>
                     (\<forall>e\<in>set (asks b). get_best_ask b \<le> fst e)"
    using best_ask_is_level [of b] best_ask_least [OF wf] by blast
  have 6: "bids b = [] \<longrightarrow> get_best_bid b = 0" by (simp add: get_best_bid_def)
  have 7: "asks b = [] \<longrightarrow> get_best_ask b = 0" by (simp add: get_best_ask_def)
  have 8: "bids b = [] \<and> asks b = [] \<longrightarrow> get_spread b = 0"
    by (simp add: 1 get_best_bid_def get_best_ask_def double_sub_def round_to_double_zero)
  have 9: "bids b = [] \<and> is_double (get_best_ask b) \<longrightarrow> get_spread b = get_best_ask b"
    by (simp add: 1 get_best_bid_def double_sub_zero_right)
  have 10: "asks b = [] \<and> is_double (get_best_bid b) \<longrightarrow> get_spread b = - get_best_bid b"
    by (simp add: 1 get_best_ask_def double_sub_zero_left)
  from 1 2 3 4 5 6 7 8 9 10 show ?thesis by (intro conjI)
qed

text \<open>
  C10 on four books. With a buy order at the double \<^verbatim>\<open>0.1\<close> and a sell order at the double
  \<^verbatim>\<open>100.3\<close> the spread is the double \<^verbatim>\<open>0x1.90ccccccccccdp+6\<close>, which is not the exact
  difference of the two prices. With the buy order alone the spread is minus its price,
  with the sell order alone it is its price, and on the empty book it is \<open>0\<close>.
\<close>

theorem C10_spread_witness:
  "get_best_bid (add_order_to_side sell_high False (add_order_to_side buy_low True empty_book)) =
     3602879701896397 / 36028797018963968 \<and>
   get_best_ask (add_order_to_side sell_high False (add_order_to_side buy_low True empty_book)) =
     7057985041019699 / 70368744177664 \<and>
   get_spread (add_order_to_side sell_high False (add_order_to_side buy_low True empty_book)) =
     7050948166601933 / 70368744177664 \<and>
   asks (add_order_to_side buy_low True empty_book) = [] \<and>
   get_spread (add_order_to_side buy_low True empty_book) =
     - (3602879701896397 / 36028797018963968) \<and>
   bids (add_order_to_side sell_high False empty_book) = [] \<and>
   get_spread (add_order_to_side sell_high False empty_book) =
     7057985041019699 / 70368744177664 \<and>
   get_spread empty_book = 0"
proof -
  let ?b1 = "add_order_to_side buy_low True empty_book"
  let ?b2 = "add_order_to_side sell_high False ?b1"
  let ?b3 = "add_order_to_side sell_high False empty_book"
  note c2 = C10_spread [OF reachable_book_low_high]
  have "bids ?b2 \<noteq> []" "asks ?b2 \<noteq> []" by (simp_all add: book_low_high_eval)
  with c2 have "\<exists>e\<in>set (bids ?b2). fst e = get_best_bid ?b2"
    "\<exists>e\<in>set (asks ?b2). fst e = get_best_ask ?b2" by blast+
  then have bid2: "get_best_bid ?b2 = 3602879701896397 / 36028797018963968"
    and ask2: "get_best_ask ?b2 = 7057985041019699 / 70368744177664"
    by (simp_all add: book_low_high_eval)
  from c2 have "get_spread ?b2 = double_sub (get_best_ask ?b2) (get_best_bid ?b2)"
    by (rule conjunct1)
  then have s2: "get_spread ?b2 = 7050948166601933 / 70368744177664"
    by (simp only: bid2 ask2 double_sub_example)
  have bid1: "get_best_bid ?b1 = 3602879701896397 / 36028797018963968"
    by (simp add: get_best_bid_def book_low_eval)
  have d1: "is_double (get_best_bid ?b1)" by (simp only: bid1 is_double_examples)
  have a1: "asks ?b1 = []" by (rule book_low_eval)
  from C10_spread [OF reachable_book_low] a1 d1
  have "get_spread ?b1 = - get_best_bid ?b1" by blast
  then have s1: "get_spread ?b1 = - (3602879701896397 / 36028797018963968)"
    by (simp only: bid1)
  have ask3: "get_best_ask ?b3 = 7057985041019699 / 70368744177664"
    by (simp add: get_best_ask_def book_high_eval)
  have d3: "is_double (get_best_ask ?b3)" by (simp only: ask3 is_double_examples)
  have a3: "bids ?b3 = []" by (rule book_high_eval)
  from C10_spread [OF reachable_book_high] a3 d3
  have "get_spread ?b3 = get_best_ask ?b3" by blast
  then have s3: "get_spread ?b3 = 7057985041019699 / 70368744177664"
    by (simp only: ask3)
  have "bids empty_book = [] \<and> asks empty_book = []" by (simp add: empty_book_def)
  with C10_spread [OF reachable.initial]
  have s0: "get_spread empty_book = 0" by blast
  from bid2 ask2 s2 a1 s1 a3 s3 s0 show ?thesis by (intro conjI)
qed

text \<open>
  C10 as stated fails: after one sell order at 101 the bid side is empty and the spread
  is 101, not 0.
\<close>

theorem C10_one_sided_counterexample:
  "add_order \<lparr>order_id = 1, is_buy = False, price = 101, quantity = 50, timestamp_ns = 1\<rparr>
     False 0 empty_book =
     Some (Returned (),
           add_order_to_side
             \<lparr>order_id = 1, is_buy = False, price = 101, quantity = 50, timestamp_ns = 1\<rparr>
             False empty_book) \<and>
   bids (add_order_to_side
           \<lparr>order_id = 1, is_buy = False, price = 101, quantity = 50, timestamp_ns = 1\<rparr>
           False empty_book) = [] \<and>
   get_spread (add_order_to_side
           \<lparr>order_id = 1, is_buy = False, price = 101, quantity = 50, timestamp_ns = 1\<rparr>
           False empty_book) = 101"
proof (intro conjI)
  show "add_order \<lparr>order_id = 1, is_buy = False, price = 101, quantity = 50, timestamp_ns = 1\<rparr>
     False 0 empty_book =
     Some (Returned (),
           add_order_to_side
             \<lparr>order_id = 1, is_buy = False, price = 101, quantity = 50, timestamp_ns = 1\<rparr>
             False empty_book)"
    by (simp add: add_order_def empty_book_def)
  show "bids (add_order_to_side
           \<lparr>order_id = 1, is_buy = False, price = 101, quantity = 50, timestamp_ns = 1\<rparr>
           False empty_book) = []"
    by code_simp
  show "get_spread (add_order_to_side
           \<lparr>order_id = 1, is_buy = False, price = 101, quantity = 50, timestamp_ns = 1\<rparr>
           False empty_book) = 101"
    by code_simp
qed

end
